theory Spec2Isabelle
  imports Complex_Main "HOL-Library.Multiset"
begin

section \<open>Shared types\<close>

text \<open>Go's \<open>time.Duration\<close> is a signed 64-bit count of nanoseconds. The durations
  handled below are far from the 64-bit range, so they are modelled as integers.\<close>

type_synonym duration = int

definition Millisecond :: duration where
  "Millisecond = 1000000"

definition Second :: duration where
  "Second = 1000 * Millisecond"

record ApiCallError =
  Code :: int
  ErrorMsg :: string
  Details :: string

text \<open>The values of Go's \<open>error\<close> interface that the modelled functions can return. The
  constructor names follow the message prefixes of the source.\<close>

datatype error =
    ErrorMarshalingRequest
  | ErrorCreatingRequest
  | ErrorDumpingRequest
  | ErrorSendingRequest
  | ErrorDumpingResponse
  | ErrorDecodingResponse
  | ApiCallErr ApiCallError
  | PathError string
  | InvalidSeek
  | EOF
  | ClientDoError string
  | UploadStatusError string string int int

record BackOffOpts =
  InitialDuration :: duration
  RandomizationFactor :: rat
  Multiplier :: rat
  MaxElapsedTime :: duration

section \<open>Resilient transport\<close>

text \<open>The fields of \<open>ServiceOptions\<close> that the modelled functions read. (\<open>ProxyURL\<close> only
  configures the HTTP client; the writers \<open>DumpOut\<close> and \<open>ErrOut\<close> appear as logs in the
  states below.)\<close>

record ServiceOptions =
  RootEndpoint :: string
  RetryAttempts :: int
  RetryDelay :: duration
  ChunkSizeBytes :: int
  ChunkUploadBackOffOpts :: BackOffOpts

definition DefaultChunkUploadBackOffOpts :: BackOffOpts where
  "DefaultChunkUploadBackOffOpts =
     \<lparr>InitialDuration = 500 * Millisecond, RandomizationFactor = 1 / 2, Multiplier = 3 / 2,
      MaxElapsedTime = 120 * Second\<rparr>"

text \<open>Go's \<open>http.Header\<close> is a map from header names to lists of values; a name without
  entry reads as the empty list.\<close>

type_synonym header = "string \<Rightarrow> string list"

text \<open>A \<open>*http.Request\<close>. \<open>ReqBody\<close> is what is left to read from \<open>req.Body\<close> (\<open>None\<close> is a nil
  body). The body is a reader over the marshalled payload: what has been read from it is
  gone, and nothing in \<open>doRequestWithOpts\<close> rewinds it.\<close>

record http_request =
  Method :: string
  URL :: string
  Header :: header
  ContentLength :: nat
  ReqBody :: "string option"

record http_response =
  StatusCode :: int
  Status :: string
  Body :: string

text \<open>What the transport does to the outside world, in order: the dumps written to
  \<open>DumpOut\<close>, the calls of \<open>client.Do\<close> (each with the request as it is at the call) and the
  calls of \<open>time.Sleep\<close>.\<close>

datatype event =
    DumpedRequest http_request
  | Sent http_request
  | DumpedResponse http_response
  | Slept duration

text \<open>\<open>calls\<close> counts the calls of \<open>client.Do\<close>, \<open>served\<close> those among them whose request the
  transport could write, so that the server answered them.\<close>

record net_state =
  calls :: nat
  served :: nat
  trace :: "event list"

text \<open>The collaborators of \<open>doRequestWithOpts\<close> that live outside the repository:
  the JSON encoder and decoder, \<open>http.NewRequest\<close>, the canonical form of a header name
  (\<open>textproto.CanonicalMIMEHeaderKey\<close>, applied by \<open>Header.Add\<close> and \<open>Header.Set\<close>), the dump
  helpers of \<open>httputil\<close> and the HTTP client. \<open>client_Do env k req\<close> is the outcome of the
  \<open>k\<close>-th request that reaches the server (counted from 0); \<open>None\<close> is a connection-level
  failure.\<close>

record ('q, 'a) transport_env =
  json_Marshal :: "'q \<Rightarrow> string option"
  NewRequest_ok :: "string \<Rightarrow> string \<Rightarrow> bool"
  CanonicalMIMEHeaderKey :: "string \<Rightarrow> string"
  dumpRequest_ok :: "http_request \<Rightarrow> bool"
  dumpResponse_ok :: "http_response \<Rightarrow> bool"
  client_Do :: "nat \<Rightarrow> http_request \<Rightarrow> http_response option"
  Decode :: "string \<Rightarrow> 'a option"
  DecodeApiCallError :: "string \<Rightarrow> ApiCallError option"

definition isRetryableErrorCode :: "int \<Rightarrow> bool" where
  "isRetryableErrorCode code = (code = 503 \<or> code = 502)"

text \<open>\<open>http.NewRequest(method, url, body)\<close> with a nil body or a \<open>*bytes.Buffer\<close>: the content
  length is the length of the buffer, and the header is empty.\<close>

definition NewRequest :: "('q, 'a) transport_env \<Rightarrow> string \<Rightarrow> string \<Rightarrow> string option
    \<Rightarrow> http_request option" where
  "NewRequest env meth url body =
     (if \<not> NewRequest_ok env meth url then None
      else Some \<lparr>Method = meth, URL = url, Header = (\<lambda>name. []),
                 ContentLength = (case body of None \<Rightarrow> 0 | Some b \<Rightarrow> length b),
                 ReqBody = body\<rparr>)"

text \<open>\<open>Header.Add\<close> appends a value under the canonical form of the name, \<open>Header.Set\<close>
  replaces the values under it.\<close>

definition Header_Add :: "('q, 'a) transport_env \<Rightarrow> header \<Rightarrow> string \<Rightarrow> string \<Rightarrow> header" where
  "Header_Add env h name v =
     h(CanonicalMIMEHeaderKey env name := h (CanonicalMIMEHeaderKey env name) @ [v])"

definition Header_Set :: "('q, 'a) transport_env \<Rightarrow> header \<Rightarrow> string \<Rightarrow> string \<Rightarrow> header" where
  "Header_Set env h name v = h(CanonicalMIMEHeaderKey env name := [v])"

definition bodyLength :: "http_request \<Rightarrow> nat" where
  "bodyLength req = (case ReqBody req of None \<Rightarrow> 0 | Some b \<Rightarrow> length b)"

text \<open>One call of \<open>c.client.Do(req)\<close>. The transport writes the body after the header that
  announces \<open>ContentLength\<close> bytes: when the body has fewer bytes left, the call returns an
  error and the server answers nothing. The call reads the body to its end; the second
  component is the request after the call.\<close>

definition Do :: "('q, 'a) transport_env \<Rightarrow> http_request \<Rightarrow> net_state
    \<Rightarrow> http_response option \<times> http_request \<times> net_state" where
  "Do env req s =
     (if bodyLength req \<noteq> ContentLength req
      then (None, req\<lparr>ReqBody := map_option (\<lambda>b. []) (ReqBody req)\<rparr>,
            s\<lparr>calls := calls s + 1, trace := trace s @ [Sent req]\<rparr>)
      else (client_Do env (served s) req, req\<lparr>ReqBody := map_option (\<lambda>b. []) (ReqBody req)\<rparr>,
            s\<lparr>calls := calls s + 1, served := served s + 1, trace := trace s @ [Sent req]\<rparr>))"

text \<open>The first part of \<open>doRequestWithOpts\<close>: marshal the payload, create the request,
  add the headers of \<open>opts\<close>, set the content type and dump the request. \<open>optsHeader\<close> lists
  the entries of the map \<open>opts.Header\<close> in the order in which \<open>range\<close> visits them. The dump
  reads the body and puts a copy back, so the request leaves it unread.\<close>

definition buildRequest :: "('q, 'a) transport_env \<Rightarrow> ServiceOptions \<Rightarrow> string \<Rightarrow> string
    \<Rightarrow> 'q option \<Rightarrow> (string \<times> string list) list \<Rightarrow> error + http_request" where
  "buildRequest env c meth path reqpl optsHeader =
     (case (case reqpl of None \<Rightarrow> Some None
            | Some q \<Rightarrow> map_option Some (json_Marshal env q)) of
        None \<Rightarrow> Inl ErrorMarshalingRequest
      | Some body \<Rightarrow>
          (case NewRequest env meth (RootEndpoint c @ path) body of
             None \<Rightarrow> Inl ErrorCreatingRequest
           | Some req0 \<Rightarrow>
               (let h = foldl (\<lambda>h (name, values). foldl (\<lambda>h v. Header_Add env h name v) h values)
                          (Header req0) optsHeader;
                    req = req0\<lparr>Header := Header_Set env h ''Content-Type'' ''application/json''\<rparr>
                in if \<not> dumpRequest_ok env req then Inl ErrorDumpingRequest else Inr req)))"

text \<open>The retry loop
  \<open>for i := 0; i < c.RetryAttempts && isRetryableErrorCode(res.StatusCode); i++\<close>. Every
  iteration passes the same \<open>*http.Request\<close> to \<open>client.Do\<close>, in the state in which the
  call before left it.\<close>

function retryLoop :: "('q, 'a) transport_env \<Rightarrow> ServiceOptions \<Rightarrow> http_request \<Rightarrow> int
    \<Rightarrow> http_response \<Rightarrow> net_state \<Rightarrow> (error + http_response) \<times> net_state" where
  "retryLoop env c req i res s =
     (if i < RetryAttempts c \<and> isRetryableErrorCode (StatusCode res) then
        (if \<not> dumpResponse_ok env res then (Inl ErrorDumpingResponse, s)
         else
           (let s1 = s\<lparr>trace := trace s @ [DumpedResponse res, Slept (RetryDelay c)]\<rparr>
            in case Do env req s1 of
                 (None, req', s2) \<Rightarrow> (Inl ErrorSendingRequest, s2)
               | (Some res', req', s2) \<Rightarrow> retryLoop env c req' (i + 1) res' s2))
      else (Inr res, s))"
  by pat_completeness auto
termination
  by (relation "measure (\<lambda>(env, c, req, i, res, s). nat (RetryAttempts c - i))") auto

declare retryLoop.simps [simp del]

text \<open>The last part of \<open>doRequestWithOpts\<close>: dump the final response and decode it.\<close>

definition decodeResponse :: "('q, 'a) transport_env \<Rightarrow> string \<Rightarrow> bool \<Rightarrow> http_response
    \<Rightarrow> net_state \<Rightarrow> (error + 'a option) \<times> net_state" where
  "decodeResponse env meth respl res s =
     (if \<not> dumpResponse_ok env res then (Inl ErrorDumpingResponse, s)
      else
        (let s1 = s\<lparr>trace := trace s @ [DumpedResponse res]\<rparr>
         in if StatusCode res < 200 \<or> StatusCode res > 299 then
              (if meth = ''DELETE'' then
                 (Inl (ApiCallErr \<lparr>Code = 0, ErrorMsg = Status res, Details = ''''\<rparr>), s1)
               else
                 (case DecodeApiCallError env (Body res) of
                    None \<Rightarrow> (Inl ErrorDecodingResponse, s1)
                  | Some errpl \<Rightarrow> (Inl (ApiCallErr errpl), s1)))
            else if respl then
              (case Decode env (Body res) of
                 None \<Rightarrow> (Inl ErrorDecodingResponse, s1)
               | Some v \<Rightarrow> (Inr (Some v), s1))
            else (Inr None, s1)))"

text \<open>\<open>respl\<close> says whether the caller passed a destination for the response payload;
  the result \<open>Inr (Some v)\<close> is a nil error with the destination populated by \<open>v\<close>.\<close>

definition doRequestWithOpts :: "('q, 'a) transport_env \<Rightarrow> ServiceOptions \<Rightarrow> string \<Rightarrow> string
    \<Rightarrow> 'q option \<Rightarrow> bool \<Rightarrow> (string \<times> string list) list \<Rightarrow> net_state
    \<Rightarrow> (error + 'a option) \<times> net_state" where
  "doRequestWithOpts env c meth path reqpl respl optsHeader s =
     (case buildRequest env c meth path reqpl optsHeader of
        Inl e \<Rightarrow> (Inl e, s)
      | Inr req \<Rightarrow>
          (let s1 = s\<lparr>trace := trace s @ [DumpedRequest req]\<rparr>
           in case Do env req s1 of
                (None, req', s2) \<Rightarrow> (Inl ErrorSendingRequest, s2)
              | (Some res, req', s2) \<Rightarrow>
                  (case retryLoop env c req' 0 res s2 of
                     (Inl e, s3) \<Rightarrow> (Inl e, s3)
                   | (Inr res', s3) \<Rightarrow> decodeResponse env meth respl res' s3)))"

definition doRequest :: "('q, 'a) transport_env \<Rightarrow> ServiceOptions \<Rightarrow> string \<Rightarrow> string
    \<Rightarrow> 'q option \<Rightarrow> bool \<Rightarrow> net_state \<Rightarrow> (error + 'a option) \<times> net_state" where
  "doRequest env c meth path reqpl respl s =
     doRequestWithOpts env c meth path reqpl respl [] s"


subsection \<open>A server that answers 503, 503, 200\<close>

definition r503 :: http_response where
  "r503 = \<lparr>StatusCode = 503, Status = ''503 Service Unavailable'', Body = ''busy''\<rparr>"

definition r200 :: http_response where
  "r200 = \<lparr>StatusCode = 200, Status = ''200 OK'', Body = ''payload''\<rparr>"

text \<open>In the examples the payloads are strings that marshal to themselves, and the only
  header name, \<open>Content-Type\<close>, is its own canonical form.\<close>

definition env_503_503_200 :: "(string, string) transport_env" where
  "env_503_503_200 =
     \<lparr>json_Marshal = Some, NewRequest_ok = (\<lambda>m u. True),
      CanonicalMIMEHeaderKey = (\<lambda>name. name),
      dumpRequest_ok = (\<lambda>r. True), dumpResponse_ok = (\<lambda>r. True),
      client_Do = (\<lambda>k req. if k < 2 then Some r503 else Some r200),
      Decode = Some,
      DecodeApiCallError = (\<lambda>b. Some \<lparr>Code = 503, ErrorMsg = b, Details = ''''\<rparr>)\<rparr>"

definition opts_retry :: "int \<Rightarrow> ServiceOptions" where
  "opts_retry n = \<lparr>RootEndpoint = ''http://co'', RetryAttempts = n, RetryDelay = 5 * Second,
                   ChunkSizeBytes = 300,
                   ChunkUploadBackOffOpts = DefaultChunkUploadBackOffOpts\<rparr>"

definition jsonHeader :: header where
  "jsonHeader = (\<lambda>name. [])(''Content-Type'' := [''application/json''])"

definition req_hosts :: http_request where
  "req_hosts = \<lparr>Method = ''GET'', URL = ''http://co/hosts'', Header = jsonHeader,
                 ContentLength = 0, ReqBody = None\<rparr>"



definition fresh :: net_state where
  "fresh = \<lparr>calls = 0, served = 0, trace = []\<rparr>"

definition retryEvents :: "ServiceOptions \<Rightarrow> http_request \<Rightarrow> (nat \<Rightarrow> http_response) \<Rightarrow> nat \<Rightarrow> nat \<Rightarrow> event list" where
  "retryEvents c req rs j m =
     concat (map (\<lambda>k. [DumpedResponse (rs k), Slept (RetryDelay c), Sent req]) [j..<m])"

section \<open>Polling-to-channel signaling bridge\<close>

definition initialPollInterval :: duration where
  "initialPollInterval = 100 * Millisecond"

definition maxPollInterval :: duration where
  "maxPollInterval = 2 * Second"

definition maxConsecutiveErrors :: int where
  "maxConsecutiveErrors = 10"

text \<open>A polled message is a JSON object. \<open>message_type\<close> is \<open>None\<close> when the key is absent
  or its value is not a string; \<open>payload\<close> is \<open>None\<close> when the key is absent or its value is
  not a JSON object, in which case the type assertion of the source panics.\<close>

record 'p message =
  message_type :: "string option"
  payload :: "'p option"

datatype phase = Running | Returned | Panicked

datatype select_outcome = StopReceived | Tick

datatype poll_report = ErrorPollingMessages | ReachedMaxPollingErrors | UnexpectedMessageType

text \<open>The locals of \<open>webRTCPoll\<close> (\<open>start\<close>, \<open>pollInterval\<close>, \<open>errCount\<close>) and what the
  goroutine has done so far: the cursors it requested, the payloads it delivered on
  \<open>sinkCh\<close>, whether it closed \<open>sinkCh\<close>, the timers it waited for and its lines on
  \<open>ErrOut\<close>.\<close>

record 'p poll_state =
  start :: int
  pollInterval :: duration
  errCount :: int
  polled :: "int list"
  sinkCh :: "'p list"
  sinkClosed :: bool
  waited :: "duration list"
  pollErrOut :: "poll_report list"
  pollPhase :: phase

text \<open>What the environment decides in one iteration of the loop: whether \<open>doRequest\<close>
  returned an error, the messages found in the response, and which case of the final
  \<open>select\<close> fired. A failed request normally leaves \<open>messages\<close> empty; the model does not
  rely on it.\<close>

record 'p poll_input =
  pollFailed :: bool
  messages :: "'p message list"
  selected :: select_outcome

definition pollInit :: "'p poll_state" where
  "pollInit = \<lparr>start = 0, pollInterval = initialPollInterval, errCount = 0, polled = [],
               sinkCh = [], sinkClosed = False, waited = [], pollErrOut = [],
               pollPhase = Running\<rparr>"

text \<open>The loop \<open>for _, message := range messages\<close>. The send on \<open>sinkCh\<close> is unbuffered;
  the model takes the consumer to receive every payload.\<close>

fun forwardMessages :: "'p message list \<Rightarrow> 'p poll_state \<Rightarrow> 'p poll_state" where
  "forwardMessages [] s = s"
| "forwardMessages (m # ms) s =
     (if message_type m \<noteq> Some ''device_msg'' then
        forwardMessages ms (s\<lparr>pollErrOut := pollErrOut s @ [UnexpectedMessageType]\<rparr>)
      else
        (case payload m of
           None \<Rightarrow> s\<lparr>pollPhase := Panicked\<rparr>
         | Some p \<Rightarrow> forwardMessages ms (s\<lparr>sinkCh := sinkCh s @ [p], start := start s + 1\<rparr>)))"

definition nextPollInterval :: "'p message list \<Rightarrow> duration \<Rightarrow> duration" where
  "nextPollInterval msgs d =
     (if length msgs > 0 then initialPollInterval
      else (let d2 = 2 * d in if d2 > maxPollInterval then maxPollInterval else d2))"

text \<open>One iteration of the \<open>for\<close> loop of \<open>webRTCPoll\<close>.\<close>

definition pollIteration :: "'p poll_input \<Rightarrow> 'p poll_state \<Rightarrow> 'p poll_state" where
  "pollIteration i s =
     (let s0 = s\<lparr>polled := polled s @ [start s]\<rparr>;
          s1 = (if pollFailed i
                then s0\<lparr>errCount := errCount s0 + 1,
                        pollErrOut := pollErrOut s0 @ [ErrorPollingMessages]\<rparr>
                else s0\<lparr>errCount := 0\<rparr>)
      in if pollFailed i \<and> errCount s1 \<ge> maxConsecutiveErrors then
           s1\<lparr>pollErrOut := pollErrOut s1 @ [ReachedMaxPollingErrors],
               sinkClosed := True, pollPhase := Returned\<rparr>
         else
           (let s2 = s1\<lparr>pollInterval := nextPollInterval (messages i) (pollInterval s1)\<rparr>;
                s3 = forwardMessages (messages i) s2
            in if pollPhase s3 = Panicked then s3
               else (case selected i of
                       StopReceived \<Rightarrow> s3\<lparr>sinkClosed := True, pollPhase := Returned\<rparr>
                     | Tick \<Rightarrow> s3\<lparr>waited := waited s3 @ [pollInterval s3]\<rparr>)))"

text \<open>The loop itself, run on the inputs of its first iterations. The source loops until it
  returns; a state with \<open>pollPhase = Running\<close> after the inputs are used up is the loop
  about to start its next iteration.\<close>

fun webRTCPoll :: "'p poll_input list \<Rightarrow> 'p poll_state \<Rightarrow> 'p poll_state" where
  "webRTCPoll [] s = s"
| "webRTCPoll (i # is) s =
     (if pollPhase s = Running then webRTCPoll is (pollIteration i s) else s)"

definition emptyPoll :: "nat poll_input" where
  "emptyPoll = \<lparr>pollFailed = False, messages = [], selected = Tick\<rparr>"

definition onePoll :: "nat poll_input" where
  "onePoll = \<lparr>pollFailed = False,
              messages = [\<lparr>message_type = Some ''device_msg'', payload = Some 7\<rparr>],
              selected = Tick\<rparr>"

subsection \<open>The outbound loop\<close>

text \<open>What arrives on the send channel: a message, together with what the environment
  decides for its forward requests (\<open>fails i\<close> says that the request of attempt \<open>i\<close> returns
  an error), or the closing of the channel by the caller.\<close>

datatype 'm src_event = Message 'm "nat \<Rightarrow> bool" | SrcClosed

datatype forward_report = ErrorSendingMessage | ReachedMaxSendingErrors

text \<open>What \<open>webRTCForward\<close> has done so far: the forward requests issued (one entry per
  call of \<open>doRequest\<close>), the messages forwarded with success, how often it closed
  \<open>stopPollCh\<close>, and its lines on \<open>ErrOut\<close>.\<close>

record 'm forward_state =
  forwardRequests :: "'m list"
  forwarded :: "'m list"
  stopClosed :: nat
  forwardErrOut :: "forward_report list"
  forwardPhase :: phase

definition forwardInit :: "'m forward_state" where
  "forwardInit = \<lparr>forwardRequests = [], forwarded = [], stopClosed = 0, forwardErrOut = [],
                   forwardPhase = Running\<rparr>"

text \<open>The loop \<open>for ; i < maxConsecutiveErrors; i++\<close> that sends one message; the result is
  the final value of \<open>i\<close>.\<close>

function sendAttempts :: "'m \<Rightarrow> (nat \<Rightarrow> bool) \<Rightarrow> int \<Rightarrow> 'm forward_state \<Rightarrow> int \<times> 'm forward_state" where
  "sendAttempts msg fails i s =
     (if i < maxConsecutiveErrors then
        (let s1 = s\<lparr>forwardRequests := forwardRequests s @ [msg]\<rparr>
         in if fails (nat i)
            then sendAttempts msg fails (i + 1)
                   (s1\<lparr>forwardErrOut := forwardErrOut s1 @ [ErrorSendingMessage]\<rparr>)
            else (i, s1))
      else (i, s))"
  by pat_completeness auto
termination
  by (relation "measure (\<lambda>(msg, fails, i, s). nat (maxConsecutiveErrors - i))") auto

declare sendAttempts.simps [simp del]

text \<open>The loop of \<open>webRTCForward\<close>, run on what arrives on the send channel. With the
  events used up the goroutine waits on the channel (\<open>forwardPhase = Running\<close>).\<close>

fun webRTCForward :: "'m src_event list \<Rightarrow> 'm forward_state \<Rightarrow> 'm forward_state" where
  "webRTCForward [] s = s"
| "webRTCForward (SrcClosed # es) s =
     (if forwardPhase s = Running
      then s\<lparr>stopClosed := stopClosed s + 1, forwardPhase := Returned\<rparr>
      else s)"
| "webRTCForward (Message msg fails # es) s =
     (if forwardPhase s = Running then
        (let (i, s1) = sendAttempts msg fails 0 s
         in if i = maxConsecutiveErrors
            then s1\<lparr>forwardErrOut := forwardErrOut s1 @ [ReachedMaxSendingErrors],
                    stopClosed := stopClosed s1 + 1, forwardPhase := Returned\<rparr>
            else webRTCForward es (s1\<lparr>forwarded := forwarded s1 @ [msg]\<rparr>))
      else s)"

definition failsFirst :: "nat \<Rightarrow> nat \<Rightarrow> bool" where
  "failsFirst k i = (i < k)"

subsection \<open>Invariants of the two loops\<close>

text \<open>The stop signal is closed once the outbound loop has returned, and not before.\<close>

definition forwardInv :: "'m forward_state \<Rightarrow> bool" where
  "forwardInv s \<longleftrightarrow> (forwardPhase s = Running \<and> stopClosed s = 0) \<or>
                  (forwardPhase s = Returned \<and> stopClosed s = 1)"

text \<open>What the polling loop keeps true: the cursor counts the payloads delivered, the receive
  channel is closed exactly when the loop has returned, and a running loop has seen fewer
  than \<open>maxConsecutiveErrors\<close> errors in a row.\<close>

definition pollInv :: "'p poll_state \<Rightarrow> bool" where
  "pollInv s \<longleftrightarrow> start s = int (length (sinkCh s)) \<and> (sinkClosed s = (pollPhase s = Returned)) \<and>
     0 \<le> errCount s \<and> errCount s \<le> maxConsecutiveErrors \<and>
     (pollPhase s = Running \<longrightarrow> errCount s < maxConsecutiveErrors)"

definition stopPoll :: "nat poll_input" where
  "stopPoll = \<lparr>pollFailed = False, messages = [], selected = StopReceived\<rparr>"

subsection \<open>The two loops together\<close>

text \<open>One iteration of \<open>webRTCPoll\<close> up to its \<open>select\<close>: the request, the error count, the
  new poll interval and the delivery of the messages. The iteration ends here when the
  loop returns on the tenth consecutive error or panics on a payload.\<close>

definition pollBody :: "bool \<Rightarrow> 'p message list \<Rightarrow> 'p poll_state \<Rightarrow> 'p poll_state" where
  "pollBody failed msgs s =
     (let s0 = s\<lparr>polled := polled s @ [start s]\<rparr>;
          s1 = (if failed
                then s0\<lparr>errCount := errCount s0 + 1,
                        pollErrOut := pollErrOut s0 @ [ErrorPollingMessages]\<rparr>
                else s0\<lparr>errCount := 0\<rparr>)
      in if failed \<and> errCount s1 \<ge> maxConsecutiveErrors then
           s1\<lparr>pollErrOut := pollErrOut s1 @ [ReachedMaxPollingErrors],
               sinkClosed := True, pollPhase := Returned\<rparr>
         else forwardMessages msgs (s1\<lparr>pollInterval := nextPollInterval msgs (pollInterval s1)\<rparr>))"

text \<open>The \<open>select\<close> at the end of the iteration, once one of its cases is taken.\<close>

definition pollSelect :: "select_outcome \<Rightarrow> 'p poll_state \<Rightarrow> 'p poll_state" where
  "pollSelect sel s =
     (case sel of
        StopReceived \<Rightarrow> s\<lparr>sinkClosed := True, pollPhase := Returned\<rparr>
      | Tick \<Rightarrow> s\<lparr>waited := waited s @ [pollInterval s]\<rparr>)"


text \<open>
  \<open>initHandling\<close> starts the two goroutines on one stop channel. The state of the pair is
  the state of each loop and the place of the inbound goroutine: about to send its next
  request, or waiting in its \<open>select\<close>. The stop channel is closed once \<open>stopClosed\<close> of the
  outbound loop is not zero.
\<close>

datatype location = AtRequest | AtSelect

record ('m, 'p) bridge_state =
  outbound :: "'m forward_state"
  inbound :: "'p poll_state"
  inboundAt :: location


definition stopChClosed :: "('m, 'p) bridge_state \<Rightarrow> bool" where
  "stopChClosed s = (stopClosed (outbound s) > 0)"

text \<open>
  The steps of the two goroutines; a schedule is a list of steps, chosen by the Go
  scheduler, the caller and the server, and a step that is not enabled leaves the state as
  it is.
  \<^item> \<open>Receive ev\<close>: the outbound goroutine receives from the send channel, a message (which
    it forwards, with its retries) or the closing of the channel by the caller.
  \<^item> \<open>Request failed msgs\<close>: the inbound goroutine runs one iteration up to its \<open>select\<close>;
    the server decides whether the request fails and which messages it brings. When the
    iteration reaches the \<open>select\<close> with the stop channel closed, the stop case is the only
    one that is ready (the timer was started just now, with an interval of at least
    100ms), and it is taken.
  \<^item> \<open>TimerFires\<close>: the inbound goroutine waits in its \<open>select\<close> and the timer case is
    taken. When the stop channel is closed as well, both cases are ready and Go chooses
    one of them at random, so this step is enabled with the stop channel closed too.
  \<^item> \<open>StopSeen\<close>: the inbound goroutine waits in its \<open>select\<close>, the stop channel is closed,
    and the stop case is taken.
\<close>

datatype ('m, 'p) bridge_action =
    Receive "'m src_event"
  | Request bool "'p message list"
  | TimerFires
  | StopSeen

fun bridgeStep :: "('m, 'p) bridge_action \<Rightarrow> ('m, 'p) bridge_state \<Rightarrow> ('m, 'p) bridge_state" where
  "bridgeStep (Receive ev) s = s\<lparr>outbound := webRTCForward [ev] (outbound s)\<rparr>"
| "bridgeStep (Request failed msgs) s =
     (if pollPhase (inbound s) = Running \<and> inboundAt s = AtRequest then
        (let p = pollBody failed msgs (inbound s)
         in if pollPhase p \<noteq> Running then s\<lparr>inbound := p\<rparr>
            else if stopChClosed s then s\<lparr>inbound := pollSelect StopReceived p\<rparr>
            else s\<lparr>inbound := p, inboundAt := AtSelect\<rparr>)
      else s)"
| "bridgeStep TimerFires s =
     (if pollPhase (inbound s) = Running \<and> inboundAt s = AtSelect
      then s\<lparr>inbound := pollSelect Tick (inbound s), inboundAt := AtRequest\<rparr>
      else s)"
| "bridgeStep StopSeen s =
     (if pollPhase (inbound s) = Running \<and> inboundAt s = AtSelect \<and> stopChClosed s
      then s\<lparr>inbound := pollSelect StopReceived (inbound s)\<rparr>
      else s)"

fun bridgeRun :: "('m, 'p) bridge_action list \<Rightarrow> ('m, 'p) bridge_state \<Rightarrow> ('m, 'p) bridge_state" where
  "bridgeRun [] s = s"
| "bridgeRun (a # as) s = bridgeRun as (bridgeStep a s)"





section \<open>Parallel chunked uploader\<close>

subsection \<open>64-bit integers\<close>

text \<open>\<open>int64\<close> and, on the 64-bit platforms the client is built for, \<open>int\<close> are 64-bit
  two's complement integers: sums, differences and products wrap around, and \<open>/\<close>
  truncates towards zero. \<open>int64 x\<close> is the value of the integer \<open>x\<close> after wrap-around.\<close>

definition int64 :: "int \<Rightarrow> int" where
  "int64 x = (x + 2 ^ 63) mod 2 ^ 64 - 2 ^ 63"

definition add64 :: "int \<Rightarrow> int \<Rightarrow> int" where
  "add64 a b = int64 (a + b)"

definition sub64 :: "int \<Rightarrow> int \<Rightarrow> int" where
  "sub64 a b = int64 (a - b)"

definition mul64 :: "int \<Rightarrow> int \<Rightarrow> int" where
  "mul64 a b = int64 (a * b)"

text \<open>Go's \<open>a / b\<close> for \<open>b \<noteq> 0\<close>; the caller checks for zero, where Go panics.\<close>

definition quo64 :: "int \<Rightarrow> int \<Rightarrow> int" where
  "quo64 a b = int64 (sgn a * sgn b * (\<bar>a\<bar> div \<bar>b\<bar>))"

subsection \<open>Files\<close>

text \<open>The local file system maps a path to the bytes of the file, when there is one.\<close>

type_synonym filesystem = "string \<Rightarrow> string option"

definition os_Stat_Size :: "filesystem \<Rightarrow> string \<Rightarrow> error + int" where
  "os_Stat_Size fs name =
     (case fs name of None \<Rightarrow> Inl (PathError name) | Some data \<Rightarrow> Inr (int (length data)))"

text \<open>\<open>io.CopyN(dst, src, n)\<close> on the bytes left in the source: it copies \<open>n\<close> bytes, and
  reports \<open>EOF\<close> when the source ends before that.\<close>

definition io_CopyN :: "string \<Rightarrow> int \<Rightarrow> error + string" where
  "io_CopyN src n =
     (let written = take (nat n) src
      in if int (length written) < n then Inl EOF else Inr written)"

text \<open>\<open>filepath.Base\<close>: the last element of the path, trailing separators removed.\<close>

fun dropTrailingSlashes :: "string \<Rightarrow> string" where
  "dropTrailingSlashes p = rev (dropWhile (\<lambda>ch. ch = CHR ''/'') (rev p))"

definition filepath_Base :: "string \<Rightarrow> string" where
  "filepath_Base p =
     (if p = [] then ''.''
      else (let q = dropTrailingSlashes p
            in if q = [] then ''/''
               else rev (takeWhile (\<lambda>ch. ch \<noteq> CHR ''/'') (rev q))))"

subsection \<open>The uploader and its jobs\<close>

definition openConnections :: nat where
  "openConnections = 32"

record fileInfo =
  Name :: string
  TotalChunks :: int

record filesUploader =
  EndpointURL :: string
  Filenames :: "string list"
  UploaderChunkSizeBytes :: int
  UploaderBackOffOpts :: BackOffOpts

text \<open>A chunk job. \<open>ChunkNumber\<close> is meant to lie between 1 and \<open>JobTotalChunks\<close>; the
  \<open>n\<close>-th chunk is the segment of the file of size \<open>JobChunkSizeBytes\<close> that starts at byte
  \<open>(n - 1) * JobChunkSizeBytes\<close>.\<close>

record uploadChunkJob =
  Filename :: string
  ChunkNumber :: int
  JobTotalChunks :: int
  JobChunkSizeBytes :: int

text \<open>A value that a function returns, an error it returns, or a panic.\<close>

datatype 'a result = Ok 'a | Err error | Panic string

text \<open>\<open>getFilesInfos\<close>: the loop over \<open>u.Filenames\<close>, with the slice built so far.\<close>

fun getFilesInfosLoop :: "filesystem \<Rightarrow> int \<Rightarrow> string list \<Rightarrow> fileInfo list
    \<Rightarrow> fileInfo list result" where
  "getFilesInfosLoop fs csz [] infos = Ok infos"
| "getFilesInfosLoop fs csz (name # names) infos =
     (case os_Stat_Size fs name of
        Inl e \<Rightarrow> Err e
      | Inr sz \<Rightarrow>
          if csz = 0 then Panic ''integer divide by zero''
          else getFilesInfosLoop fs csz names
                 (infos @ [\<lparr>Name = name,
                            TotalChunks = quo64 (sub64 (add64 sz csz) 1) csz\<rparr>]))"

definition getFilesInfos :: "filesUploader \<Rightarrow> filesystem \<Rightarrow> fileInfo list result" where
  "getFilesInfos u fs = getFilesInfosLoop fs (UploaderChunkSizeBytes u) (Filenames u) []"

text \<open>The jobs that the two nested loops of \<open>sendJobs\<close> build, in the order in which they
  offer them to \<open>jobsChan\<close>: for each file, \<open>i\<close> from 0 while \<open>i < info.TotalChunks\<close>.\<close>

definition jobsOfFile :: "int \<Rightarrow> fileInfo \<Rightarrow> uploadChunkJob list" where
  "jobsOfFile csz info =
     map (\<lambda>i. \<lparr>Filename = Name info, ChunkNumber = i + 1,
                JobTotalChunks = TotalChunks info, JobChunkSizeBytes = csz\<rparr>)
         [0..TotalChunks info - 1]"

definition sendJobsSequence :: "int \<Rightarrow> fileInfo list \<Rightarrow> uploadChunkJob list" where
  "sendJobsSequence csz infos = concat (map (jobsOfFile csz) infos)"

text \<open>The multipart body that \<open>writeMultipartRequest\<close> writes: the three form fields (their
  values are written in decimal) and the file part. The body is written into a pipe whose
  reader is the HTTP request; the model takes the reader to consume it, so that the writes
  themselves do not fail.\<close>

record multipart =
  chunk_number :: int
  chunk_total :: int
  chunk_size_bytes :: int
  file_part_name :: string
  file_part :: string

definition writeMultipartRequest :: "filesystem \<Rightarrow> uploadChunkJob \<Rightarrow> error + multipart" where
  "writeMultipartRequest fs job =
     (case fs (Filename job) of
        None \<Rightarrow> Inl (PathError (Filename job))
      | Some data \<Rightarrow>
          (let offset = mul64 (sub64 (ChunkNumber job) 1) (JobChunkSizeBytes job)
           in if offset < 0 then Inl InvalidSeek
              else
                (let rest = drop (nat offset) data;
                     body = \<lparr>chunk_number = ChunkNumber job, chunk_total = JobTotalChunks job,
                             chunk_size_bytes = JobChunkSizeBytes job,
                             file_part_name = filepath_Base (Filename job), file_part = []\<rparr>
                 in if ChunkNumber job < JobTotalChunks job then
                      (case io_CopyN rest (JobChunkSizeBytes job) of
                         Inl e \<Rightarrow> Inl e
                       | Inr written \<Rightarrow> Inr (body\<lparr>file_part := written\<rparr>))
                    else Inr (body\<lparr>file_part := rest\<rparr>))))"

subsection \<open>The goroutines of Upload\<close>

text \<open>
  \<open>Upload\<close> starts \<open>openConnections\<close> workers, each made of two goroutines, and one
  generator goroutine, and then collects results. The goroutines communicate over
  unbuffered channels, so every send is a rendezvous with a receive.

  The inner goroutine of a worker (\<open>uploadChunkWorker.Start\<close>) is \<open>Idle\<close> while it waits
  on \<open>JobsChan\<close>, \<open>Busy\<close> while it runs the retry loop of a job, \<open>Reporting\<close> while it
  waits to send the result on its channel \<open>ch\<close>, and \<open>InnerExited\<close> once \<open>JobsChan\<close> is
  closed and it has closed \<open>ch\<close>. The outer goroutine (\<open>startWorkers\<close>) is \<open>Waiting\<close> on
  \<open>ch\<close>, \<open>Holding\<close> a result that it is sending on \<open>agg\<close>, or \<open>OuterExited\<close> after
  \<open>wg.Done()\<close>.
\<close>

datatype inner = Idle | Busy uploadChunkJob | Reporting "error option" | InnerExited

datatype outer = Waiting | Holding "error option" | OuterExited

text \<open>The generator (\<open>sendJobs\<close> and the goroutine around it) holds the jobs that it has
  not offered yet; with \<open>j # js\<close> it is in the \<open>select\<close> that offers \<open>j\<close>.\<close>

datatype generator = Sending "uploadChunkJob list" | JobsChanClosed

datatype upload_phase = UploadRunning | UploadReturned "error option" | UploadPanicked string

record upload_state =
  generator :: generator
  workers :: "(inner \<times> outer) list"
  ctxDone :: bool
  returnErr :: "error option"
  received :: "error option list"
  uploadDumpOut :: "error list"
  enqueued :: "uploadChunkJob list"
  finished :: "(uploadChunkJob \<times> error option) list"
  uploadPhase :: upload_phase

text \<open>
  The steps of the goroutines. A schedule is a list of steps that the Go scheduler and the
  environment choose; a step that is not enabled in a state leaves the state as it is.
  \<^item> \<open>SendJob w\<close>: the \<open>select\<close> of \<open>sendJobs\<close> takes its case \<open>jobsChan <- job\<close>, and the
    idle worker \<open>w\<close> receives the job. Go chooses among the ready cases of a \<open>select\<close> at
    random, so this case can be taken whether or not the context is cancelled.
  \<^item> \<open>ObserveDone\<close>: the \<open>select\<close> takes its case \<open><-ctx.Done()\<close>, ready once the context
    is cancelled; \<open>sendJobs\<close> returns and the deferred \<open>close(jobsChan)\<close> runs.
  \<^item> \<open>CloseJobsChan\<close>: the loops of \<open>sendJobs\<close> are over; \<open>jobsChan\<close> is closed.
  \<^item> \<open>FinishJob w r\<close>: the retry loop of worker \<open>w\<close> ends with the result \<open>r\<close> for its job
    (the environment decides the result); the job and its result are noted in \<open>finished\<close>.
    A worker issues upload requests only while it is \<open>Busy\<close>.
  \<^item> \<open>HandOver w\<close>: the inner goroutine of \<open>w\<close> passes its result to the outer one.
  \<^item> \<open>Collect w\<close>: the loop of \<open>Upload\<close> receives the result that worker \<open>w\<close> sends on
    \<open>agg\<close> and runs its body.
  \<^item> \<open>InnerExit w\<close>, \<open>OuterExit w\<close>: the goroutines of \<open>w\<close> end after \<open>jobsChan\<close>,
    respectively \<open>ch\<close>, is closed.
  \<^item> \<open>Return\<close>: every worker is done, \<open>agg\<close> is closed, and \<open>Upload\<close> returns \<open>returnErr\<close>.
\<close>

datatype action =
    SendJob nat
  | ObserveDone
  | CloseJobsChan
  | FinishJob nat "error option"
  | HandOver nat
  | Collect nat
  | InnerExit nat
  | OuterExit nat
  | Return

text \<open>The body of the loop \<open>for err := range resultsChan\<close> of \<open>Upload\<close>.\<close>

definition collectResult :: "error option \<Rightarrow> upload_state \<Rightarrow> upload_state" where
  "collectResult r s =
     (let s1 = s\<lparr>received := received s @ [r]\<rparr>
      in case r of
           None \<Rightarrow> s1
         | Some err \<Rightarrow>
             (let s2 = s1\<lparr>uploadDumpOut := uploadDumpOut s1 @ [err]\<rparr>
              in if returnErr s2 = None then s2\<lparr>returnErr := Some err, ctxDone := True\<rparr>
                 else s2))"

definition innerOf :: "upload_state \<Rightarrow> nat \<Rightarrow> inner option" where
  "innerOf s w = (if w < length (workers s) then Some (fst (workers s ! w)) else None)"

definition outerOf :: "upload_state \<Rightarrow> nat \<Rightarrow> outer option" where
  "outerOf s w = (if w < length (workers s) then Some (snd (workers s ! w)) else None)"

definition setInner :: "nat \<Rightarrow> inner \<Rightarrow> upload_state \<Rightarrow> upload_state" where
  "setInner w i s = s\<lparr>workers := (workers s)[w := (i, snd (workers s ! w))]\<rparr>"

definition setOuter :: "nat \<Rightarrow> outer \<Rightarrow> upload_state \<Rightarrow> upload_state" where
  "setOuter w out s = s\<lparr>workers := (workers s)[w := (fst (workers s ! w), out)]\<rparr>"

fun step :: "action \<Rightarrow> upload_state \<Rightarrow> upload_state" where
  "step (SendJob w) s =
     (case generator s of
        Sending (j # js) \<Rightarrow>
          if innerOf s w = Some Idle
          then setInner w (Busy j) (s\<lparr>generator := Sending js, enqueued := enqueued s @ [j]\<rparr>)
          else s
      | _ \<Rightarrow> s)"
| "step ObserveDone s =
     (case generator s of
        Sending (j # js) \<Rightarrow> if ctxDone s then s\<lparr>generator := JobsChanClosed\<rparr> else s
      | _ \<Rightarrow> s)"
| "step CloseJobsChan s =
     (case generator s of
        Sending [] \<Rightarrow> s\<lparr>generator := JobsChanClosed\<rparr>
      | _ \<Rightarrow> s)"
| "step (FinishJob w r) s =
     (case innerOf s w of
        Some (Busy j) \<Rightarrow> setInner w (Reporting r) (s\<lparr>finished := finished s @ [(j, r)]\<rparr>)
      | _ \<Rightarrow> s)"
| "step (HandOver w) s =
     (case innerOf s w of
        Some (Reporting r) \<Rightarrow>
          if outerOf s w = Some Waiting then setInner w Idle (setOuter w (Holding r) s) else s
      | _ \<Rightarrow> s)"
| "step (Collect w) s =
     (case outerOf s w of
        Some (Holding r) \<Rightarrow> collectResult r (setOuter w Waiting s)
      | _ \<Rightarrow> s)"
| "step (InnerExit w) s =
     (if innerOf s w = Some Idle \<and> generator s = JobsChanClosed
      then setInner w InnerExited s else s)"
| "step (OuterExit w) s =
     (if outerOf s w = Some Waiting \<and> innerOf s w = Some InnerExited
      then setOuter w OuterExited s else s)"
| "step Return s =
     (if uploadPhase s = UploadRunning \<and> (\<forall>wk \<in> set (workers s). snd wk = OuterExited)
      then s\<lparr>uploadPhase := UploadReturned (returnErr s)\<rparr> else s)"

fun run :: "action list \<Rightarrow> upload_state \<Rightarrow> upload_state" where
  "run [] s = s"
| "run (a # as) s = run as (step a s)"

text \<open>The state before any goroutine exists.\<close>

definition notStarted :: upload_state where
  "notStarted = \<lparr>generator = Sending [], workers = [], ctxDone = False, returnErr = None,
                  received = [], uploadDumpOut = [], enqueued = [], finished = [],
                  uploadPhase = UploadRunning\<rparr>"

text \<open>The state after \<open>startWorkers\<close> and the start of the generator goroutine.\<close>

definition started :: "uploadChunkJob list \<Rightarrow> upload_state" where
  "started jobs = notStarted\<lparr>generator := Sending jobs,
                              workers := replicate openConnections (Idle, Waiting)\<rparr>"

definition Upload :: "filesUploader \<Rightarrow> filesystem \<Rightarrow> action list \<Rightarrow> upload_state" where
  "Upload u fs sched =
     (case getFilesInfos u fs of
        Panic msg \<Rightarrow> notStarted\<lparr>uploadPhase := UploadPanicked msg\<rparr>
      | Err e \<Rightarrow> notStarted\<lparr>uploadPhase := UploadReturned (Some e)\<rparr>
      | Ok infos \<Rightarrow> run sched (started (sendJobsSequence (UploaderChunkSizeBytes u) infos)))"

definition UploadFiles :: "ServiceOptions \<Rightarrow> filesystem \<Rightarrow> string \<Rightarrow> string
    \<Rightarrow> string list \<Rightarrow> action list \<Rightarrow> upload_state" where
  "UploadFiles c fs host uploadDir filenames sched =
     (if ChunkSizeBytes c = 0
      then notStarted\<lparr>uploadPhase := UploadPanicked ''ChunkSizeBytes value cannot be zero''\<rparr>
      else Upload \<lparr>EndpointURL = RootEndpoint c @ ''/hosts/'' @ host @ ''/userartifacts/''
                                  @ uploadDir,
                   Filenames = filenames,
                   UploaderChunkSizeBytes = ChunkSizeBytes c,
                   UploaderBackOffOpts = ChunkUploadBackOffOpts c\<rparr> fs sched)"

subsection \<open>Notions used to state the properties of Upload\<close>

text \<open>The errors among the results that \<open>Upload\<close> received, in the order of arrival, and the
  first of them.\<close>

fun errorsOf :: "error option list \<Rightarrow> error list" where
  "errorsOf [] = []"
| "errorsOf (None # rs) = errorsOf rs"
| "errorsOf (Some e # rs) = e # errorsOf rs"

definition firstError :: "error option list \<Rightarrow> error option" where
  "firstError rs = (case errorsOf rs of [] \<Rightarrow> None | e # es \<Rightarrow> Some e)"

text \<open>The jobs that the generator has not offered yet.\<close>

fun pendingJobs :: "generator \<Rightarrow> uploadChunkJob list" where
  "pendingJobs (Sending js) = js"
| "pendingJobs JobsChanClosed = []"

text \<open>A schedule that lets a running upload come to its end from any state it can be in:
  every worker delivers what it holds and finishes its job, the generator hands out up to
  \<open>n\<close> further jobs, which worker 0 handles one after the other, \<open>jobsChan\<close> is closed, and
  the goroutines end.\<close>

definition settleWorker :: "nat \<Rightarrow> action list" where
  "settleWorker w = [Collect w, FinishJob w None, HandOver w, Collect w]"

definition completion :: "nat \<Rightarrow> action list" where
  "completion n =
     concat (map settleWorker [0..<openConnections])
     @ concat (replicate n (SendJob 0 # settleWorker 0))
     @ [CloseJobsChan]
     @ map InnerExit [0..<openConnections]
     @ map OuterExit [0..<openConnections]
     @ [Return]"

text \<open>What the loop of \<open>Upload\<close> keeps true of its variables: every error received so far
  was reported on \<open>DumpOut\<close>, \<open>returnErr\<close> is the first of them, and the context is
  cancelled exactly when there is one.\<close>

definition aggInv :: "upload_state \<Rightarrow> bool" where
  "aggInv s \<longleftrightarrow> uploadDumpOut s = errorsOf (received s) \<and> returnErr s = firstError (received s) \<and>
      ctxDone s = (returnErr s \<noteq> None)"

text \<open>\<open>Upload\<close> does not panic once the goroutines run; when it has returned, it returned
  \<open>returnErr\<close> and every worker is done.\<close>

definition retInv :: "upload_state \<Rightarrow> bool" where
  "retInv s \<longleftrightarrow> (case uploadPhase s of
       UploadRunning \<Rightarrow> True
     | UploadReturned r \<Rightarrow> r = returnErr s \<and> (\<forall>k < length (workers s). snd (workers s ! k) = OuterExited)
     | UploadPanicked m \<Rightarrow> False)"

text \<open>The jobs enqueued so far are an initial part of the job sequence, and the generator
  holds the rest while it is sending.\<close>

definition genInv :: "uploadChunkJob list \<Rightarrow> upload_state \<Rightarrow> bool" where
  "genInv jobs s \<longleftrightarrow> (\<exists>rest. jobs = enqueued s @ rest \<and>
       (\<forall>js. generator s = Sending js \<longrightarrow> rest = js))"

text \<open>There are \<open>openConnections\<close> workers; an inner goroutine ends only after \<open>jobsChan\<close>
  is closed, an outer one only after its inner one.\<close>

definition wfInv :: "upload_state \<Rightarrow> bool" where
  "wfInv s \<longleftrightarrow> length (workers s) = openConnections \<and>
     (\<forall>k < length (workers s).
        (fst (workers s ! k) = InnerExited \<longrightarrow> generator s = JobsChanClosed) \<and>
        (snd (workers s ! k) = OuterExited \<longrightarrow> fst (workers s ! k) = InnerExited))"

text \<open>Worker \<open>k\<close> holds neither a job nor a result.\<close>


definition settled :: "upload_state \<Rightarrow> nat \<Rightarrow> bool" where
  "settled s k \<longleftrightarrow> (fst (workers s ! k) = Idle \<or> fst (workers s ! k) = InnerExited) \<and>
     (snd (workers s ! k) = Waiting \<or> snd (workers s ! k) = OuterExited)"

text \<open>Nothing was ever enqueued, worked on or reported.\<close>

definition idleInv :: "upload_state \<Rightarrow> bool" where
  "idleInv s \<longleftrightarrow> enqueued s = [] \<and> finished s = [] \<and> received s = [] \<and>
     pendingJobs (generator s) = [] \<and> (\<forall>k < length (workers s). settled s k)"

text \<open>Worker \<open>k\<close> holds an error that \<open>Upload\<close> has not received yet.\<close>

definition errorInFlight :: "upload_state \<Rightarrow> nat \<Rightarrow> bool" where
  "errorInFlight s k \<longleftrightarrow>
     (\<exists>e. fst (workers s ! k) = Reporting (Some e) \<or> snd (workers s ! k) = Holding (Some e))"

text \<open>Once the retry loop of some job has ended with an error, an error has been received or
  is on its way.\<close>

definition failInv :: "upload_state \<Rightarrow> bool" where
  "failInv s \<longleftrightarrow>
     ((\<exists>j e. (j, Some e) \<in> set (finished s)) \<longrightarrow>
        returnErr s \<noteq> None \<or> (\<exists>k < length (workers s). errorInFlight s k))"

text \<open>The results that are on their way from a retry loop to \<open>Upload\<close>: held by the inner
  goroutine of a worker that waits to send on \<open>ch\<close>, or by the outer one that waits to
  send on \<open>agg\<close>. Every result that a retry loop ended with has been received by \<open>Upload\<close>
  or is on its way.\<close>

definition flightOf :: "inner \<times> outer \<Rightarrow> error option multiset" where
  "flightOf wk =
     (case fst wk of Reporting r \<Rightarrow> {#r#} | _ \<Rightarrow> {#}) +
     (case snd wk of Holding r \<Rightarrow> {#r#} | _ \<Rightarrow> {#})"

definition inFlight :: "upload_state \<Rightarrow> error option multiset" where
  "inFlight s = sum_list (map flightOf (workers s))"

definition flightInv :: "upload_state \<Rightarrow> bool" where
  "flightInv s \<longleftrightarrow> mset (map snd (finished s)) = mset (received s) + inFlight s"

subsection \<open>Example inputs of the uploader\<close>

definition exampleUploader :: "string list \<Rightarrow> int \<Rightarrow> filesUploader" where
  "exampleUploader names csz =
     \<lparr>EndpointURL = ''http://co/hosts/h/userartifacts/d'', Filenames = names,
      UploaderChunkSizeBytes = csz, UploaderBackOffOpts = DefaultChunkUploadBackOffOpts\<rparr>"

definition oneFile :: "string \<Rightarrow> filesystem" where
  "oneFile data name = (if name = ''f.img'' then Some data else None)"

definition chunkJob :: "int \<Rightarrow> int \<Rightarrow> int \<Rightarrow> uploadChunkJob" where
  "chunkJob n tot csz =
     \<lparr>Filename = ''f.img'', ChunkNumber = n, JobTotalChunks = tot, JobChunkSizeBytes = csz\<rparr>"

definition exampleFile :: string where
  "exampleFile = replicate 1000 CHR ''x''"

definition chunk2Failed :: error where
  "chunk2Failed = UploadStatusError ''500 Internal Server Error'' ''f.img'' 2 4"

definition chunk3Failed :: error where
  "chunk3Failed = ClientDoError ''context canceled''"

text \<open>Four workers take the four chunks; the upload of chunk 2 fails for good, then that of
  chunk 3; the results arrive in the order of the chunks.\<close>

definition scheduleChunk2Fails :: "action list" where
  "scheduleChunk2Fails =
     [SendJob 0, SendJob 1, SendJob 2, SendJob 3,
      FinishJob 1 (Some chunk2Failed), FinishJob 0 None, FinishJob 2 (Some chunk3Failed),
      FinishJob 3 None,
      HandOver 0, Collect 0, HandOver 1, Collect 1, HandOver 2, Collect 2, HandOver 3, Collect 3]"

text \<open>Two workers take chunks 1 and 2; chunk 2 fails and \<open>Upload\<close> cancels the context while
  the generator offers chunk 3 and worker 2 waits for a job.\<close>

definition scheduleUntilCancel :: "action list" where
  "scheduleUntilCancel =
     [SendJob 0, SendJob 1, FinishJob 1 (Some chunk2Failed), HandOver 1, Collect 1]"

definition zeroChunkOptions :: ServiceOptions where
  "zeroChunkOptions = \<lparr>RootEndpoint = ''http://co'', RetryAttempts = 3, RetryDelay = 5 * Second,
                        ChunkSizeBytes = 0,
                        ChunkUploadBackOffOpts = DefaultChunkUploadBackOffOpts\<rparr>"

section \<open>The retry loop of an upload worker\<close>

subsection \<open>Exponential backoff\<close>

text \<open>
  The worker takes its backoff policy from the library \<open>github.com/cenkalti/backoff/v4\<close>,
  which is not part of the repository. Its \<open>ExponentialBackOff\<close> is modelled here after the
  library's documentation and code: \<open>Reset\<close> sets the current interval to
  \<open>InitialInterval\<close> and the start time to the current time; \<open>NextBackOff\<close> draws the
  next delay around the current interval, multiplies the current interval by \<open>Multiplier\<close>
  (capped at \<open>MaxInterval\<close>), and returns \<open>Stop\<close> when \<open>MaxElapsedTime\<close> is not zero and
  the time elapsed since the start time plus the delay exceeds it. The clock is explicit:
  the operations take the current time in nanoseconds. The library computes with
  \<open>float64\<close>; the model computes with rationals and truncates.
\<close>

record ExponentialBackOff =
  b_InitialInterval :: duration
  b_RandomizationFactor :: rat
  b_Multiplier :: rat
  b_MaxInterval :: duration
  b_MaxElapsedTime :: duration
  currentInterval :: duration
  startTime :: int

definition backoff_Stop :: duration where
  "backoff_Stop = - 1"

definition truncateRat :: "rat \<Rightarrow> int" where
  "truncateRat x = (if 0 \<le> x then \<lfloor>x\<rfloor> else \<lceil>x\<rceil>)"

definition Reset :: "int \<Rightarrow> ExponentialBackOff \<Rightarrow> ExponentialBackOff" where
  "Reset now b = b\<lparr>currentInterval := b_InitialInterval b, startTime := now\<rparr>"

definition NewExponentialBackOff :: "int \<Rightarrow> ExponentialBackOff" where
  "NewExponentialBackOff now =
     Reset now \<lparr>b_InitialInterval = 500 * Millisecond, b_RandomizationFactor = 1 / 2,
                b_Multiplier = 3 / 2, b_MaxInterval = 60 * Second,
                b_MaxElapsedTime = 900 * Second, currentInterval = 0, startTime = 0\<rparr>"

definition getRandomValueFromInterval :: "rat \<Rightarrow> rat \<Rightarrow> duration \<Rightarrow> duration" where
  "getRandomValueFromInterval randomizationFactor random cur =
     (if randomizationFactor = 0 then cur
      else (let delta = randomizationFactor * of_int cur;
                minInterval = of_int cur - delta;
                maxInterval = of_int cur + delta
            in truncateRat (minInterval + random * (maxInterval - minInterval + 1))))"

definition incrementCurrentInterval :: "ExponentialBackOff \<Rightarrow> ExponentialBackOff" where
  "incrementCurrentInterval b =
     (if b_Multiplier b \<noteq> 0 \<and>
         of_int (currentInterval b) \<ge> of_int (b_MaxInterval b) / b_Multiplier b
      then b\<lparr>currentInterval := b_MaxInterval b\<rparr>
      else b\<lparr>currentInterval := truncateRat (of_int (currentInterval b) * b_Multiplier b)\<rparr>)"

definition GetElapsedTime :: "int \<Rightarrow> ExponentialBackOff \<Rightarrow> duration" where
  "GetElapsedTime now b = now - startTime b"

definition NextBackOff :: "int \<Rightarrow> rat \<Rightarrow> ExponentialBackOff \<Rightarrow> duration \<times> ExponentialBackOff" where
  "NextBackOff now random b =
     (let elapsed = GetElapsedTime now b;
          next = getRandomValueFromInterval (b_RandomizationFactor b) random (currentInterval b);
          b1 = incrementCurrentInterval b
      in if b_MaxElapsedTime b \<noteq> 0 \<and> elapsed + next > b_MaxElapsedTime b
         then (backoff_Stop, b1) else (next, b1))"

subsection \<open>The worker\<close>

text \<open>What the environment decides for one call of \<open>w.upload(job)\<close>: how long the call
  takes, whether \<open>Client.Do\<close> fails or which status the server answers, and the random
  number that the backoff draws if the call fails.\<close>

datatype put_result = DoFailed string | Responded int string

record attempt =
  took :: duration
  answer :: put_result
  random :: rat

definition upload :: "uploadChunkJob \<Rightarrow> put_result \<Rightarrow> error option" where
  "upload job res =
     (case res of
        DoFailed msg \<Rightarrow> Some (ClientDoError msg)
      | Responded code status \<Rightarrow>
          if code \<noteq> 200
          then Some (UploadStatusError status (filepath_Base (Filename job)) (ChunkNumber job)
                       (JobTotalChunks job))
          else None)"

text \<open>The state of the inner goroutine of a worker: the clock, the backoff object \<open>b\<close> (here \<open>backoff\<close>) that
  \<open>Start\<close> creates once, the calls of \<open>w.upload\<close> made so far (job and time of the call),
  the delays slept, and the results sent on \<open>ch\<close>. \<open>stuck\<close> says that the attempts provided
  by the environment ran out inside a retry loop.\<close>

record worker_state =
  clock :: int
  backoff :: ExponentialBackOff
  uploadCalls :: "(uploadChunkJob \<times> int) list"
  slept :: "duration list"
  sentOnCh :: "(uploadChunkJob \<times> error option) list"
  stuck :: bool

text \<open>The inner loop \<open>for { err = w.upload(job); ... }\<close>, on the attempts of this job; the
  result is the \<open>err\<close> sent on \<open>ch\<close>.\<close>

fun retryUpload :: "attempt list \<Rightarrow> uploadChunkJob \<Rightarrow> worker_state
    \<Rightarrow> error option option \<times> worker_state" where
  "retryUpload [] job w = (None, w\<lparr>stuck := True\<rparr>)"
| "retryUpload (a # as) job w =
     (let w1 = w\<lparr>uploadCalls := uploadCalls w @ [(job, clock w)], clock := clock w + took a\<rparr>
      in case upload job (answer a) of
           None \<Rightarrow> (Some None, w1\<lparr>backoff := Reset (clock w1) (backoff w1)\<rparr>)
         | Some err \<Rightarrow>
             (let (d, b1) = NextBackOff (clock w1) (random a) (backoff w1)
              in if d = backoff_Stop then (Some (Some err), w1\<lparr>backoff := b1\<rparr>)
                 else retryUpload as job
                        (w1\<lparr>backoff := b1, slept := slept w1 @ [d],
                            clock := clock w1 + max d 0\<rparr>)))"

text \<open>The outer loop \<open>for job := range w.JobsChan\<close>, on the jobs that the worker receives,
  each with the attempts that the environment provides for it.\<close>

fun handleJobs :: "(uploadChunkJob \<times> attempt list) list \<Rightarrow> worker_state \<Rightarrow> worker_state" where
  "handleJobs [] w = w"
| "handleJobs ((job, as) # rest) w =
     (case retryUpload as job w of
        (None, w1) \<Rightarrow> w1
      | (Some err, w1) \<Rightarrow> handleJobs rest (w1\<lparr>sentOnCh := sentOnCh w1 @ [(job, err)]\<rparr>))"

text \<open>\<open>Start\<close>: create the backoff object, configure it from \<open>BackOffOpts\<close>, reset it, and
  run the loop. \<open>now\<close> is the time of the call.\<close>

definition Start :: "BackOffOpts \<Rightarrow> int \<Rightarrow> (uploadChunkJob \<times> attempt list) list \<Rightarrow> worker_state" where
  "Start opts now jobs =
     (let b0 = NewExponentialBackOff now;
          b1 = b0\<lparr>b_InitialInterval := InitialDuration opts,
                  b_RandomizationFactor := RandomizationFactor opts,
                  b_Multiplier := Multiplier opts,
                  b_MaxElapsedTime := MaxElapsedTime opts\<rparr>
      in handleJobs jobs \<lparr>clock = now, backoff = Reset now b1, uploadCalls = [], slept = [],
                          sentOnCh = [], stuck = False\<rparr>)"

subsection \<open>A worker that handles a failing chunk and then a chunk that fails once\<close>

definition shortBackOffOpts :: BackOffOpts where
  "shortBackOffOpts = \<lparr>InitialDuration = 1 * Second, RandomizationFactor = 0, Multiplier = 2,
                        MaxElapsedTime = 3 * Second\<rparr>"

definition failing :: attempt where
  "failing = \<lparr>took = 100 * Millisecond, answer = Responded 503 ''503 Service Unavailable'',
               random = 0\<rparr>"

definition succeeding :: attempt where
  "succeeding = \<lparr>took = 100 * Millisecond, answer = Responded 200 ''200 OK'', random = 0\<rparr>"

definition chunk1Unavailable :: error where
  "chunk1Unavailable = UploadStatusError ''503 Service Unavailable'' ''f.img'' 1 4"

definition chunk2Unavailable :: error where
  "chunk2Unavailable = UploadStatusError ''503 Service Unavailable'' ''f.img'' 2 4"

section \<open>Operation waiter\<close>

text \<open>
  Modelled from the spec: the waiter (\<open>WaitOperation\<close> of the instance manager) is not among
  the source files of the repository, only its tests are. The definitions of this section
  follow the words of the specification: wait until the operation reports done; surface a
  server-declared error with the server's status code, 503 when none is given; interpret a
  done operation by its kind and by the resource identifier parsed from the last path
  segment of its target link. The recognized combinations are "insert" (fetch and return
  the resource) and "delete" (return an empty result) of a parsable target; any other
  combination of kind and target, and an unparsable target, is a decode error.
\<close>

record operationError =
  httpErrorStatusCode :: "int option"
  httpErrorMessage :: string

record operation =
  opName :: string
  opDone :: bool
  operationType :: string
  targetLink :: string
  opError :: "operationError option"

datatype wait_error =
    DeclaredError int string
  | DecodeError
  | FetchFailed error

datatype 'r wait_result = Resource 'r | EmptyResult | WaitFailed wait_error

text \<open>Modelled from the spec: the resource identifier parsed from the target link. The
  target that the specification and the tests name is an instance,
  \<open>.../instances/foo\<close>: the link is parsable when its last path segment is not empty and
  the path before it ends in \<open>/instances/\<close>; the identifier is the last path segment. No
  identity is inferred from any other link.\<close>

definition parseTargetLink :: "string \<Rightarrow> string option" where
  "parseTargetLink link =
     (let ident = rev (takeWhile (\<lambda>ch. ch \<noteq> CHR ''/'') (rev link));
          parent = dropWhile (\<lambda>ch. ch \<noteq> CHR ''/'') (rev link)
      in if ident \<noteq> [] \<and> take 11 parent = rev ''/instances/'' then Some ident else None)"

text \<open>Modelled from the spec: the error that the waiter returns for a server-declared
  error.\<close>

definition surfaceError :: "operationError \<Rightarrow> wait_error" where
  "surfaceError e =
     DeclaredError (case httpErrorStatusCode e of None \<Rightarrow> 503 | Some code \<Rightarrow> code)
       (httpErrorMessage e)"

text \<open>Modelled from the spec: the interpretation of a done operation without error. The
  second component lists the resources fetched.\<close>

definition interpretDone :: "(string \<Rightarrow> error + 'r) \<Rightarrow> operation \<Rightarrow> 'r wait_result \<times> string list" where
  "interpretDone fetchResource op =
     (case parseTargetLink (targetLink op) of
        None \<Rightarrow> (WaitFailed DecodeError, [])
      | Some ident \<Rightarrow>
          if operationType op = ''insert'' then
            (case fetchResource ident of
               Inl e \<Rightarrow> (WaitFailed (FetchFailed e), [ident])
             | Inr r \<Rightarrow> (Resource r, [ident]))
          else if operationType op = ''delete'' then (EmptyResult, [])
          else (WaitFailed DecodeError, []))"

text \<open>Modelled from the spec: the waiter, on the successive answers of the wait call. It
  has no result (\<open>None\<close>) as long as no answer carries an error or reports done.\<close>

fun waitFor :: "(string \<Rightarrow> error + 'r) \<Rightarrow> operation list \<Rightarrow> 'r wait_result option \<times> string list" where
  "waitFor fetchResource [] = (None, [])"
| "waitFor fetchResource (op # ops) =
     (case opError op of
        Some e \<Rightarrow> (Some (WaitFailed (surfaceError e)), [])
      | None \<Rightarrow>
          if opDone op
          then (let (res, fetched) = interpretDone fetchResource op in (Some res, fetched))
          else waitFor fetchResource ops)"

subsection \<open>The operations of the tests\<close>


definition testOperation :: "string \<Rightarrow> string \<Rightarrow> operationError option \<Rightarrow> operation" where
  "testOperation kind link err =
     \<lparr>opName = ''operation-1'', opDone = True, operationType = kind, targetLink = link,
      opError = err\<rparr>"

definition notFound :: operationError where
  "notFound = \<lparr>httpErrorStatusCode = Some 404, httpErrorMessage = ''NOT FOUND''\<rparr>"

definition fetchFoo :: "string \<Rightarrow> error + string" where
  "fetchFoo ident = (if ident = ''foo'' then Inr ''instance foo'' else Inl (PathError ident))"



section \<open>Properties of the transport\<close>

lemma isRetryable_2xx: "200 \<le> code \<Longrightarrow> code \<le> 299 \<Longrightarrow> \<not> isRetryableErrorCode code"
  by (auto simp: isRetryableErrorCode_def)

lemma Do_written:
  "bodyLength req = ContentLength req \<Longrightarrow>
   Do env req s = (client_Do env (served s) req, req\<lparr>ReqBody := map_option (\<lambda>b. []) (ReqBody req)\<rparr>,
      s\<lparr>calls := calls s + 1, served := served s + 1, trace := trace s @ [Sent req]\<rparr>)"
  by (simp add: Do_def)


text \<open>The request that \<open>buildRequest\<close> hands to \<open>client.Do\<close>: its body is the marshalled
  payload, unread, and its content type is JSON whatever the headers of \<open>opts\<close>.\<close>

lemma buildRequest_body:
  assumes "buildRequest env c meth path reqpl optsHeader = Inr req"
  shows "ReqBody req = (case reqpl of None \<Rightarrow> None | Some q \<Rightarrow> json_Marshal env q) \<and>
         bodyLength req = ContentLength req \<and> Method req = meth \<and> URL req = RootEndpoint c @ path \<and>
         Header req (CanonicalMIMEHeaderKey env ''Content-Type'') = [''application/json'']"
  using assms
  by (auto simp: buildRequest_def NewRequest_def bodyLength_def Let_def Header_Set_def
      split: option.splits if_splits)

text \<open>A call of \<open>client.Do\<close> leaves a request without body as it was.\<close>

lemma Do_noBody:
  assumes "ContentLength req = 0" "bodyLength req = 0"
  shows "Do env req s = (client_Do env (served s) req, req,
      s\<lparr>calls := calls s + 1, served := served s + 1, trace := trace s @ [Sent req]\<rparr>)"
proof -
  have "ReqBody req = None \<or> ReqBody req = Some []"
    using assms(2) by (auto simp: bodyLength_def split: option.splits)
  then have "req\<lparr>ReqBody := map_option (\<lambda>b. []) (ReqBody req)\<rparr> = req" by auto
  then show ?thesis using assms by (simp add: Do_def)
qed

lemma retryLoop_transient:
  assumes nb: "ContentLength req = 0" "bodyLength req = 0"
    and tr: "\<And>k. k < N \<Longrightarrow> client_Do env k req = Some (rs k) \<and>
                 isRetryableErrorCode (StatusCode (rs k)) \<and> dumpResponse_ok env (rs k)"
    and ok: "client_Do env N req = Some fin" "\<not> isRetryableErrorCode (StatusCode fin)"
    and m: "m = min (nat (RetryAttempts c)) N"
    and j: "j \<le> m" "served s = j + 1" "res = (if j = N then fin else rs j)"
  shows "retryLoop env c req (int j) res s =
          (Inr (if m = N then fin else rs m),
           s\<lparr>calls := calls s + (m - j), served := m + 1,
             trace := trace s @ retryEvents c req rs j m\<rparr>)"
  using j
proof (induction "m - j" arbitrary: j s res)
  case 0
  then have jm: "j = m" by simp
  have "\<not> (int j < RetryAttempts c \<and> isRetryableErrorCode (StatusCode res))"
    using jm m ok(2) "0.prems"(3) by (auto simp: min_def split: if_splits)
  then have "retryLoop env c req (int j) res s = (Inr res, s)"
    by (subst retryLoop.simps) (simp only: if_False)
  moreover have "s\<lparr>calls := calls s + (m - j), served := m + 1\<rparr> = s" using jm "0.prems"(2) by simp
  ultimately show ?case using jm "0.prems" by (auto simp: retryEvents_def)
next
  case (Suc d)
  then have lt: "j < m" by simp
  then have jN: "j < N" and jR: "int j < RetryAttempts c" using m by auto
  have res: "res = rs j" using Suc.prems jN by simp
  note t = tr[OF jN]
  define nx where "nx = (if Suc j = N then fin else rs (Suc j))"
  have nxt: "client_Do env (Suc j) req = Some nx"
    using tr[of "Suc j"] ok(1) jN by (cases "Suc j = N") (auto simp: nx_def)
  define s1 where "s1 = s\<lparr>trace := trace s @ [DumpedResponse res, Slept (RetryDelay c)]\<rparr>"
  define s2 where "s2 = s1\<lparr>calls := calls s1 + 1, served := served s1 + 1, trace := trace s1 @ [Sent req]\<rparr>"
  have d: "Do env req s1 = (Some nx, req, s2)"
    using Do_noBody[OF nb, of env s1] nxt Suc.prems(2) by (simp add: s1_def s2_def)
  have IH: "retryLoop env c req (int (Suc j)) nx s2 =
     (Inr (if m = N then fin else rs m),
      s2\<lparr>calls := calls s2 + (m - Suc j), served := m + 1,
        trace := trace s2 @ retryEvents c req rs (Suc j) m\<rparr>)"
    using Suc.hyps(2) lt Suc.prems(2) by (intro Suc.hyps(1)) (auto simp: s2_def s1_def nx_def)
  have d': "Do env req (s\<lparr>trace := trace s @ [DumpedResponse (rs j), Slept (RetryDelay c)]\<rparr>)
      = (Some nx, req, s2)"
    using d by (simp add: s1_def res)
  have "retryLoop env c req (int j) res s = retryLoop env c req (int j + 1) nx s2"
    using jR t res d'
    by (subst retryLoop.simps) (simp add: Let_def)
  also have "int j + 1 = int (Suc j)" by simp
  finally show ?case using IH lt
    by (simp add: s2_def s1_def retryEvents_def upt_conv_Cons res)
qed

text \<open>
  Requests without payload. The request is built once; the server answers the first \<open>N\<close>
  calls with a retryable status (503 or 502) and call \<open>N\<close> with a 2xx status whose body
  decodes to \<open>v\<close>. Then \<open>doRequestWithOpts\<close> calls \<open>client.Do\<close> with the identical request
  \<open>n + 1\<close> times, where \<open>n = min RetryAttempts N\<close> is the number of retries (a negative
  \<open>RetryAttempts\<close> counts as 0), and sleeps \<open>RetryDelay\<close> once before each retry. When
  \<open>N \<le> RetryAttempts\<close> the result is the decoded payload of the 2xx response. When
  \<open>RetryAttempts < N\<close> the retries are used up on a response that is still retryable, and
  the result is the error built from that response, not the payload.
\<close>

theorem doRequestWithOpts_bounded_retry:
  assumes build: "buildRequest env c meth path None optsHeader = Inr req"
    and tr: "\<forall>k<N. client_Do env k req = Some (rs k) \<and>
                 isRetryableErrorCode (StatusCode (rs k)) \<and> dumpResponse_ok env (rs k)"
    and fin: "client_Do env N req = Some fin" "200 \<le> StatusCode fin" "StatusCode fin \<le> 299"
      "dumpResponse_ok env fin" "Decode env (Body fin) = Some v"
    and n: "n = min (nat (RetryAttempts c)) N"
    and out: "out = doRequestWithOpts env c meth path None True optsHeader fresh"
  shows "calls (snd out) = n + 1 \<and> served (snd out) = n + 1 \<and>
         trace (snd out) = DumpedRequest req # Sent req # retryEvents c req rs 0 n
                             @ [DumpedResponse (if n = N then fin else rs n)] \<and>
         (N \<le> nat (RetryAttempts c) \<longrightarrow> fst out = Inr (Some v)) \<and>
         (nat (RetryAttempts c) < N \<longrightarrow>
            fst out = (if meth = ''DELETE''
                       then Inl (ApiCallErr \<lparr>Code = 0, ErrorMsg = Status (rs n), Details = ''''\<rparr>)
                       else case DecodeApiCallError env (Body (rs n)) of
                              None \<Rightarrow> Inl ErrorDecodingResponse
                            | Some errpl \<Rightarrow> Inl (ApiCallErr errpl)))"
proof -
  have nr: "\<not> isRetryableErrorCode (StatusCode fin)"
    using fin(2,3) by (rule isRetryable_2xx)
  have nb: "ContentLength req = 0" "bodyLength req = 0"
    using buildRequest_body[OF build] by (auto simp: bodyLength_def)
  define first where "first = (if 0 = N then fin else rs 0)"
  have d0: "client_Do env 0 req = Some first"
    using tr fin(1) by (cases "N = 0") (auto simp: first_def)
  define s2 where "s2 = \<lparr>calls = Suc 0, served = Suc 0, trace = [DumpedRequest req, Sent req]\<rparr>"
  define last where "last = (if n = N then fin else rs n)"
  define s3 where "s3 = s2\<lparr>calls := n + 1, served := n + 1, trace := trace s2 @ retryEvents c req rs 0 n\<rparr>"
  have loop: "retryLoop env c req 0 first s2 = (Inr last, s3)"
    using retryLoop_transient[of req N env rs fin n c 0 s2 first] nb tr fin(1) nr n
    by (simp add: s2_def s3_def last_def first_def)
  have dump_last: "dumpResponse_ok env last"
    using tr fin(4) n by (auto simp: last_def min_def split: if_splits)
  have out_eq: "out = decodeResponse env meth True last s3"
    unfolding out doRequestWithOpts_def build
    by (simp add: Do_noBody[OF nb] fresh_def d0 s2_def[symmetric] loop)
  have A: "N \<le> nat (RetryAttempts c) \<Longrightarrow> last = fin"
    using n by (simp add: last_def min_def)
  have B: "nat (RetryAttempts c) < N \<Longrightarrow> last = rs n \<and> isRetryableErrorCode (StatusCode (rs n))"
    using n tr by (auto simp: last_def min_def)
  show ?thesis
  proof (cases "N \<le> nat (RetryAttempts c)")
    case True
    then show ?thesis
      using A fin dump_last unfolding out_eq decodeResponse_def
      by (simp add: s3_def s2_def last_def)
  next
    case False
    then have lt: "nat (RetryAttempts c) < N" by simp
    have "StatusCode (rs n) < 200 \<or> StatusCode (rs n) > 299"
      using B[OF lt] by (auto simp: isRetryableErrorCode_def)
    moreover have "n \<noteq> N" using n lt by simp
    ultimately show ?thesis
      using B[OF lt] lt dump_last unfolding out_eq decodeResponse_def
      by (auto simp: s3_def s2_def Let_def split: option.splits)
  qed
qed

lemma buildRequest_hosts:
  "buildRequest env_503_503_200 (opts_retry n) ''GET'' ''/hosts'' None [] = Inr req_hosts"
  by (simp add: buildRequest_def NewRequest_def env_503_503_200_def opts_retry_def req_hosts_def
      Header_Set_def jsonHeader_def)


text \<open>The theorem at the server that answers 503, 503, 200 to a GET: with three retries
  allowed the payload is returned after three calls, with one retry allowed two calls are
  made.\<close>

theorem doRequestWithOpts_bounded_retry_witness:
  "calls (snd (doRequestWithOpts env_503_503_200 (opts_retry 3) ''GET'' ''/hosts''
                 (None :: string option) True [] fresh)) = 3 \<and>
   fst (doRequestWithOpts env_503_503_200 (opts_retry 3) ''GET'' ''/hosts''
          (None :: string option) True [] fresh) = Inr (Some ''payload'') \<and>
   calls (snd (doRequestWithOpts env_503_503_200 (opts_retry 1) ''GET'' ''/hosts''
                 (None :: string option) True [] fresh)) = 2"
  using doRequestWithOpts_bounded_retry[where env = env_503_503_200 and c = "opts_retry 3"
      and meth = "''GET''" and path = "''/hosts''" and optsHeader = "[]"
      and req = req_hosts and N = 2 and rs = "\<lambda>k. r503" and fin = r200 and v = "''payload''"
      and n = 2, OF buildRequest_hosts _ _ _ _ _ _ _ refl]
    doRequestWithOpts_bounded_retry[where env = env_503_503_200 and c = "opts_retry 1"
      and meth = "''GET''" and path = "''/hosts''" and optsHeader = "[]"
      and req = req_hosts and N = 2 and rs = "\<lambda>k. r503" and fin = r200 and v = "''payload''"
      and n = 1, OF buildRequest_hosts _ _ _ _ _ _ _ refl]
  by (simp add: env_503_503_200_def opts_retry_def r503_def r200_def isRetryableErrorCode_def)

text \<open>With \<open>RetryAttempts = 1\<close> and two 503 answers before the 200, the second call is the
  last one and the result is the error decoded from the second 503.\<close>

lemma doRequestWithOpts_retries_used_up:
  "client_Do env_503_503_200 0 req_hosts = Some r503 \<and>
   client_Do env_503_503_200 1 req_hosts = Some r503 \<and>
   client_Do env_503_503_200 2 req_hosts = Some r200 \<and>
   Decode env_503_503_200 (Body r200) = Some ''payload'' \<and>
   RetryAttempts (opts_retry 1) = 1 \<and>
   doRequestWithOpts env_503_503_200 (opts_retry 1) ''GET'' ''/hosts''
        (None :: string option) True [] fresh =
     (Inl (ApiCallErr \<lparr>Code = 503, ErrorMsg = ''busy'', Details = ''''\<rparr>),
      \<lparr>calls = 2, served = 2,
       trace = [DumpedRequest req_hosts, Sent req_hosts, DumpedResponse r503,
                Slept (5 * Second), Sent req_hosts, DumpedResponse r503]\<rparr>)"
proof -
  have nb: "ContentLength req_hosts = 0" "bodyLength req_hosts = 0"
    by (simp_all add: req_hosts_def bodyLength_def)
  show ?thesis
    unfolding doRequestWithOpts_def buildRequest_hosts
    by (simp add: Do_noBody[OF nb] retryLoop.simps decodeResponse_def fresh_def
      env_503_503_200_def opts_retry_def r503_def r200_def isRetryableErrorCode_def)
qed



section \<open>Properties of the polling loop\<close>

lemma forwardMessages_pollInterval [simp]:
  "pollInterval (forwardMessages ms s) = pollInterval s"
  by (induction ms s rule: forwardMessages.induct) (auto split: option.splits)

lemma nextPollInterval_bounds:
  "initialPollInterval \<le> d \<Longrightarrow>
   initialPollInterval \<le> nextPollInterval ms d \<and> nextPollInterval ms d \<le> maxPollInterval"
  by (auto simp: nextPollInterval_def Let_def initialPollInterval_def maxPollInterval_def
      Millisecond_def Second_def)

lemma pollIteration_pollInterval:
  "pollInterval (pollIteration i s) =
     (if pollFailed i \<and> errCount s + 1 \<ge> maxConsecutiveErrors then pollInterval s
      else nextPollInterval (messages i) (pollInterval s))"
  by (auto simp: pollIteration_def Let_def split: select_outcome.splits)

lemma pollIteration_bounds:
  assumes "initialPollInterval \<le> pollInterval s" "pollInterval s \<le> maxPollInterval"
  shows "initialPollInterval \<le> pollInterval (pollIteration i s) \<and>
         pollInterval (pollIteration i s) \<le> maxPollInterval"
  using assms nextPollInterval_bounds[of "pollInterval s" "messages i"]
  by (simp add: pollIteration_pollInterval)

lemma webRTCPoll_bounds:
  assumes "initialPollInterval \<le> pollInterval s" "pollInterval s \<le> maxPollInterval"
  shows "initialPollInterval \<le> pollInterval (webRTCPoll ins s) \<and>
         pollInterval (webRTCPoll ins s) \<le> maxPollInterval"
  using assms
proof (induction ins arbitrary: s)
  case Nil
  then show ?case by simp
next
  case (Cons i ins)
  then show ?case using pollIteration_bounds[of s i] by simp
qed

text \<open>
  Claim C6. The loop starts with a poll interval of 100ms. In every state \<open>s\<close> that the loop
  reaches, whatever the polls returned and whatever the \<open>select\<close> chose, the interval lies
  within [100ms, 2s]. An iteration that goes on to its interval update (it does not return
  on the tenth consecutive error) doubles the interval, capped at 2s, when the poll brought
  no message, and resets it to 100ms when it brought at least one.
\<close>

theorem pollInterval_within_bounds:
  fixes ins :: "'p poll_input list" and i :: "'p poll_input"
  defines "s \<equiv> webRTCPoll ins pollInit"
  shows "pollInterval (pollInit :: 'p poll_state) = 100 * Millisecond \<and>
         100 * Millisecond \<le> pollInterval s \<and> pollInterval s \<le> 2 * Second \<and>
         (\<not> (pollFailed i \<and> errCount s + 1 \<ge> maxConsecutiveErrors) \<longrightarrow>
            pollInterval (pollIteration i s) =
              (if messages i = [] then min (2 * pollInterval s) (2 * Second)
               else 100 * Millisecond))"
proof -
  have init: "pollInterval (pollInit :: 'p poll_state) = 100 * Millisecond"
    by (simp add: pollInit_def initialPollInterval_def)
  have "initialPollInterval \<le> pollInterval s \<and> pollInterval s \<le> maxPollInterval"
    unfolding s_def by (rule webRTCPoll_bounds) (simp_all add: pollInit_def initialPollInterval_def maxPollInterval_def
      Millisecond_def Second_def)
  then have b: "100 * Millisecond \<le> pollInterval s \<and> pollInterval s \<le> 2 * Second"
    by (simp add: initialPollInterval_def maxPollInterval_def)
  have step: "\<not> (pollFailed i \<and> errCount s + 1 \<ge> maxConsecutiveErrors) \<Longrightarrow>
            pollInterval (pollIteration i s) =
              (if messages i = [] then min (2 * pollInterval s) (2 * Second)
               else 100 * Millisecond)"
    by (auto simp: pollIteration_pollInterval nextPollInterval_def Let_def
        initialPollInterval_def maxPollInterval_def min_def)
  show ?thesis using init b step by blast
qed

text \<open>Six empty polls in a row wait 200ms, 400ms, 800ms, 1.6s, 2s and 2s.\<close>

lemma webRTCPoll_empty_polls_waited: "waited (webRTCPoll (replicate 6 emptyPoll) pollInit) =
   [200 * Millisecond, 400 * Millisecond, 800 * Millisecond, 1600 * Millisecond, 2 * Second, 2 * Second]"
  by (simp add: numeral_eq_Suc emptyPoll_def pollInit_def pollIteration_def nextPollInterval_def
    initialPollInterval_def maxPollInterval_def Millisecond_def Second_def maxConsecutiveErrors_def)

text \<open>The theorem after two and after six empty polls, followed by an empty poll and by a
  poll that brings one message.\<close>

theorem pollInterval_within_bounds_witness:
  "pollInterval (webRTCPoll (replicate 6 emptyPoll) pollInit) = 2 * Second \<and>
   pollInterval (pollIteration emptyPoll (webRTCPoll [emptyPoll, emptyPoll] pollInit)) = 800 * Millisecond \<and>
   pollInterval (pollIteration onePoll (webRTCPoll (replicate 6 emptyPoll) pollInit)) = 100 * Millisecond"
  using pollInterval_within_bounds[where i = emptyPoll and ins = "[emptyPoll, emptyPoll]"]
    pollInterval_within_bounds[where i = onePoll and ins = "replicate 6 emptyPoll"]
  by (simp add: numeral_eq_Suc emptyPoll_def onePoll_def pollInit_def pollIteration_def nextPollInterval_def
    initialPollInterval_def maxPollInterval_def Millisecond_def Second_def maxConsecutiveErrors_def)

subsection \<open>Cursor and shutdown of the polling loop\<close>

lemma forwardMessages_frame [simp]:
  "errCount (forwardMessages ms s) = errCount s"
  "sinkClosed (forwardMessages ms s) = sinkClosed s"
  "polled (forwardMessages ms s) = polled s"
  "waited (forwardMessages ms s) = waited s"
  by (induction ms s rule: forwardMessages.induct; auto split: option.splits)+

lemma forwardMessages_phase:
  "pollPhase s = Running \<Longrightarrow>
     pollPhase (forwardMessages ms s) = Running \<or> pollPhase (forwardMessages ms s) = Panicked"
  by (induction ms s rule: forwardMessages.induct) (auto split: option.splits)

lemma forwardMessages_cursor:
  "start s = int (length (sinkCh s)) \<Longrightarrow>
     start (forwardMessages ms s) = int (length (sinkCh (forwardMessages ms s))) \<and>
     start s \<le> start (forwardMessages ms s)"
proof (induction ms s rule: forwardMessages.induct)
  case (1 s)
  then show ?case by simp
next
  case (2 m ms s)
  show ?case
  proof (cases "message_type m \<noteq> Some ''device_msg''")
    case True
    then show ?thesis using 2 by simp
  next
    case False
    show ?thesis
    proof (cases "payload m")
      case None
      then show ?thesis using False "2.prems" by simp
    next
      case (Some p)
      have "start (s\<lparr>sinkCh := sinkCh s @ [p], start := start s + 1\<rparr>) =
            int (length (sinkCh (s\<lparr>sinkCh := sinkCh s @ [p], start := start s + 1\<rparr>)))"
        using "2.prems" by simp
      from "2.IH"(2)[OF _ Some this] False Some show ?thesis by simp
    qed
  qed
qed

lemma pollIteration_inv:
  assumes "pollInv s" "pollPhase s = Running"
  shows "pollInv (pollIteration i s) \<and> start s \<le> start (pollIteration i s)"
proof -
  define s0 where "s0 = s\<lparr>polled := polled s @ [start s]\<rparr>"
  define s1 where "s1 = (if pollFailed i
                then s0\<lparr>errCount := errCount s0 + 1,
                        pollErrOut := pollErrOut s0 @ [ErrorPollingMessages]\<rparr>
                else s0\<lparr>errCount := 0\<rparr>)"
  define s2 where "s2 = s1\<lparr>pollInterval := nextPollInterval (messages i) (pollInterval s1)\<rparr>"
  define s3 where "s3 = forwardMessages (messages i) s2"
  have c2: "start s2 = int (length (sinkCh s2))" "start s2 = start s" "pollPhase s2 = Running"
    "sinkClosed s2 = False" "errCount s2 = errCount s1"
    using assms by (auto simp: s2_def s1_def s0_def pollInv_def)
  have e1: "0 \<le> errCount s1" "errCount s1 \<le> errCount s + 1"
    using assms by (auto simp: s1_def s0_def pollInv_def)
  note c3 = forwardMessages_cursor[OF c2(1), of "messages i"]
  note p3 = forwardMessages_phase[OF c2(3), of "messages i"]
  have unfold: "pollIteration i s =
    (if pollFailed i \<and> errCount s1 \<ge> maxConsecutiveErrors then
           s1\<lparr>pollErrOut := pollErrOut s1 @ [ReachedMaxPollingErrors],
               sinkClosed := True, pollPhase := Returned\<rparr>
     else if pollPhase s3 = Panicked then s3
               else (case selected i of
                       StopReceived \<Rightarrow> s3\<lparr>sinkClosed := True, pollPhase := Returned\<rparr>
                     | Tick \<Rightarrow> s3\<lparr>waited := waited s3 @ [pollInterval s3]\<rparr>))"
    unfolding pollIteration_def Let_def s3_def s2_def s1_def s0_def by (rule refl)
  show ?thesis
  proof (cases "pollFailed i \<and> errCount s1 \<ge> maxConsecutiveErrors")
    case True
    then show ?thesis unfolding unfold using assms e1
      by (auto simp: pollInv_def s1_def s0_def)
  next
    case False
    then have lt: "errCount s1 < maxConsecutiveErrors"
      using assms by (auto simp: s1_def s0_def pollInv_def maxConsecutiveErrors_def)
    have s3f: "errCount s3 = errCount s1" "sinkClosed s3 = False"
      using c2 by (simp_all add: s3_def)
    show ?thesis
      unfolding unfold using False c3 p3 lt e1 s3f c2(2)
      by (cases "selected i") (auto simp: pollInv_def s3_def[symmetric])
  qed
qed

lemma webRTCPoll_append: "webRTCPoll (xs @ ys) s = webRTCPoll ys (webRTCPoll xs s)"
proof (induction xs arbitrary: s)
  case Nil
  then show ?case by simp
next
  case (Cons x xs)
  show ?case
  proof (cases "pollPhase s = Running")
    case True
    then show ?thesis using Cons by simp
  next
    case False
    then have "webRTCPoll ys s = s" by (cases ys) simp_all
    then show ?thesis using False by simp
  qed
qed

lemma webRTCPoll_inv:
  "pollInv s \<Longrightarrow> pollInv (webRTCPoll ins s) \<and> start s \<le> start (webRTCPoll ins s)"
proof (induction ins arbitrary: s)
  case Nil
  then show ?case by simp
next
  case (Cons i ins)
  show ?case
  proof (cases "pollPhase s = Running")
    case True
    from pollIteration_inv[OF Cons.prems True, of i] Cons.IH[of "pollIteration i s"] True
    show ?thesis by auto
  next
    case False
    then show ?thesis using Cons.prems by simp
  qed
qed

lemma pollInit_inv: "pollInv pollInit"
  by (simp add: pollInv_def pollInit_def maxConsecutiveErrors_def)

lemma pollIteration_stop:
  assumes "selected i = StopReceived"
  shows "pollPhase (pollIteration i s) = Panicked \<or>
         (pollPhase (pollIteration i s) = Returned \<and> sinkClosed (pollIteration i s))"
  using assms by (auto simp: pollIteration_def Let_def)

text \<open>
  The inbound loop, in every state \<open>s\<close> that it reaches: the cursor equals the number of
  payloads delivered on the receive channel and never decreases; the receive channel is
  closed exactly when the loop has returned; a running loop has counted fewer than
  \<open>maxConsecutiveErrors\<close> errors in a row. An iteration whose \<open>select\<close> receives the stop
  signal closes the receive channel and returns (unless a payload of the wrong type made
  it panic before), and so does the iteration of the tenth consecutive polling error.
\<close>

theorem webRTCPoll_cursor_and_shutdown:
  fixes ins :: "'p poll_input list"
  assumes s: "s = webRTCPoll ins pollInit"
  shows "start s = int (length (sinkCh s)) \<and>
         start s \<le> start (webRTCPoll (ins @ later) pollInit) \<and>
         sinkClosed s = (pollPhase s = Returned) \<and>
         0 \<le> errCount s \<and> (pollPhase s = Running \<longrightarrow> errCount s < maxConsecutiveErrors) \<and>
         (selected i = StopReceived \<longrightarrow>
            pollPhase (pollIteration i s) = Panicked \<or>
            (pollPhase (pollIteration i s) = Returned \<and> sinkClosed (pollIteration i s))) \<and>
         (pollPhase s = Running \<and> pollFailed i \<and> errCount s = maxConsecutiveErrors - 1 \<longrightarrow>
            pollPhase (pollIteration i s) = Returned \<and> sinkClosed (pollIteration i s))"
proof -
  have inv: "pollInv s" unfolding s using pollInit_inv webRTCPoll_inv by blast
  have mono: "start s \<le> start (webRTCPoll (ins @ later) pollInit)"
    unfolding webRTCPoll_append s using webRTCPoll_inv[OF inv[unfolded s]] by blast
  have stop: "selected i = StopReceived \<longrightarrow>
            pollPhase (pollIteration i s) = Panicked \<or>
            (pollPhase (pollIteration i s) = Returned \<and> sinkClosed (pollIteration i s))"
    using pollIteration_stop by blast
  have tenth: "pollPhase s = Running \<and> pollFailed i \<and> errCount s = maxConsecutiveErrors - 1 \<longrightarrow>
            pollPhase (pollIteration i s) = Returned \<and> sinkClosed (pollIteration i s)"
    by (auto simp: pollIteration_def Let_def)
  show ?thesis using inv mono stop tenth by (simp add: pollInv_def)
qed

text \<open>After a poll with one message and an empty poll, a poll whose \<open>select\<close> receives the
  stop signal.\<close>

theorem webRTCPoll_cursor_and_shutdown_witness:
  "start (webRTCPoll [onePoll, emptyPoll] pollInit) = 1 \<and>
   sinkCh (webRTCPoll [onePoll, emptyPoll] pollInit) = [7] \<and>
   pollPhase (pollIteration stopPoll (webRTCPoll [onePoll, emptyPoll] pollInit)) = Returned \<and>
   sinkClosed (pollIteration stopPoll (webRTCPoll [onePoll, emptyPoll] pollInit))"
  using webRTCPoll_cursor_and_shutdown[where ins = "[onePoll, emptyPoll]" and i = stopPoll
      and later = "[]", OF refl]
  by (simp add: emptyPoll_def onePoll_def stopPoll_def pollInit_def pollIteration_def
      nextPollInterval_def initialPollInterval_def maxPollInterval_def Millisecond_def Second_def
      maxConsecutiveErrors_def)

subsection \<open>Shutdown of the outbound loop\<close>

lemma sendAttempts_frame:
  "sendAttempts msg fails i s = (j, s') \<Longrightarrow>
     stopClosed s' = stopClosed s \<and> forwardPhase s' = forwardPhase s \<and> forwarded s' = forwarded s \<and>
     (i \<le> maxConsecutiveErrors \<longrightarrow> j \<le> maxConsecutiveErrors) \<and> i \<le> j \<and>
     (\<exists>n. forwardRequests s' = forwardRequests s @ replicate n msg \<and>
          (0 \<le> i \<longrightarrow> int n \<le> maxConsecutiveErrors - i \<or> n = 0))"
proof (induction msg fails i s arbitrary: j s' rule: sendAttempts.induct)
  case (1 msg fails i s)
  show ?case
  proof (cases "i < maxConsecutiveErrors")
    case False
    then show ?thesis using "1.prems" by (subst (asm) sendAttempts.simps) auto
  next
    case True
    show ?thesis
    proof (cases "fails (nat i)")
      case False
      then have "j = i" "s' = s\<lparr>forwardRequests := forwardRequests s @ [msg]\<rparr>"
        using True "1.prems" by (subst (asm) sendAttempts.simps; simp add: Let_def)+
      then show ?thesis using True
        by (auto intro!: exI[of _ "Suc 0"])
    next
      case f: True
      let ?s2 = "s\<lparr>forwardRequests := forwardRequests s @ [msg],
                    forwardErrOut := forwardErrOut s @ [ErrorSendingMessage]\<rparr>"
      have rec: "sendAttempts msg fails (i + 1) ?s2 = (j, s')"
        using True f "1.prems" by (subst (asm) sendAttempts.simps) (simp add: Let_def)
      define x where "x = s\<lparr>forwardRequests := forwardRequests s @ [msg]\<rparr>"
      have rec': "sendAttempts msg fails (i + 1)
          (x\<lparr>forwardErrOut := forwardErrOut x @ [ErrorSendingMessage]\<rparr>) = (j, s')"
        using rec by (simp add: x_def)
      from "1.IH"[OF True x_def f rec']
      obtain n where n: "stopClosed s' = stopClosed s" "forwardPhase s' = forwardPhase s"
        "forwarded s' = forwarded s" "i + 1 \<le> maxConsecutiveErrors \<longrightarrow> j \<le> maxConsecutiveErrors"
        "i + 1 \<le> j" "forwardRequests s' = (forwardRequests s @ [msg]) @ replicate n msg"
        "0 \<le> i + 1 \<longrightarrow> int n \<le> maxConsecutiveErrors - (i + 1) \<or> n = 0"
        by (auto simp: x_def)
      have "forwardRequests s' = forwardRequests s @ replicate (Suc n) msg"
        using n(6) by (simp add: replicate_app_Cons_same)
      moreover have "0 \<le> i \<longrightarrow> int (Suc n) \<le> maxConsecutiveErrors - i \<or> Suc n = 0"
        using n(7) True by auto
      ultimately show ?thesis using n True by (intro conjI exI[of _ "Suc n"]) auto
    qed
  qed
qed

lemma webRTCForward_inv: "forwardInv s \<Longrightarrow> forwardInv (webRTCForward es s)"
proof (induction es s rule: webRTCForward.induct)
  case (1 s)
  then show ?case by simp
next
  case (2 es s)
  then show ?case by (auto simp: forwardInv_def)
next
  case (3 msg fails es s)
  show ?case
  proof (cases "forwardPhase s = Running")
    case False
    then show ?thesis using "3.prems" by simp
  next
    case True
    obtain i s1 where sa: "sendAttempts msg fails 0 s = (i, s1)" by (cases "sendAttempts msg fails 0 s")
    note fr = sendAttempts_frame[OF sa]
    show ?thesis
    proof (cases "i = maxConsecutiveErrors")
      case mx: True
      then show ?thesis using True sa fr "3.prems" by (auto simp: forwardInv_def)
    next
      case False
      have "forwardInv (s1\<lparr>forwarded := forwarded s1 @ [msg]\<rparr>)"
        using fr "3.prems" by (auto simp: forwardInv_def)
      from "3.IH"[OF True sa[symmetric] refl False this] show ?thesis
        using True sa False by simp
    qed
  qed
qed

lemma webRTCForward_closed:
  "forwardInv s \<Longrightarrow> forwardPhase (webRTCForward (es @ [SrcClosed]) s) = Returned"
proof (induction es s rule: webRTCForward.induct)
  case (1 s)
  then show ?case by (auto simp: forwardInv_def)
next
  case (2 es s)
  then show ?case by (auto simp: forwardInv_def)
next
  case (3 msg fails es s)
  show ?case
  proof (cases "forwardPhase s = Running")
    case False
    then show ?thesis using "3.prems" by (auto simp: forwardInv_def)
  next
    case True
    obtain i s1 where sa: "sendAttempts msg fails 0 s = (i, s1)" by (cases "sendAttempts msg fails 0 s")
    note fr = sendAttempts_frame[OF sa]
    show ?thesis
    proof (cases "i = maxConsecutiveErrors")
      case mx: True
      then show ?thesis using True sa by simp
    next
      case False
      have "forwardInv (s1\<lparr>forwarded := forwarded s1 @ [msg]\<rparr>)"
        using fr "3.prems" by (auto simp: forwardInv_def)
      from "3.IH"[OF True sa[symmetric] refl False this] show ?thesis
        using True sa False by simp
    qed
  qed
qed

text \<open>
  The outbound loop: whatever messages arrive and however their forward requests fail,
  once the caller has closed the send channel the loop has returned and has closed the
  stop signal exactly once, either on seeing the closed channel or earlier, after
  \<open>maxConsecutiveErrors\<close> failed requests for one message. Before that, the stop signal is
  closed exactly when the loop has returned.
\<close>

theorem webRTCForward_closes_stop_once:
  fixes es :: "'m src_event list"
  shows "forwardPhase (webRTCForward (es @ [SrcClosed]) forwardInit) = Returned \<and>
         stopClosed (webRTCForward (es @ [SrcClosed]) forwardInit) = 1 \<and>
         stopClosed (webRTCForward es forwardInit) \<le> 1 \<and>
         (stopClosed (webRTCForward es forwardInit) = 1) = (forwardPhase (webRTCForward es forwardInit) = Returned)"
proof -
  have i: "forwardInv (forwardInit :: 'm forward_state)" by (simp add: forwardInv_def forwardInit_def)
  have a: "forwardInv (webRTCForward (es @ [SrcClosed]) forwardInit)"
    and b: "forwardInv (webRTCForward es forwardInit)"
    using i by (rule webRTCForward_inv)+
  have c: "forwardPhase (webRTCForward (es @ [SrcClosed]) forwardInit) = Returned"
    using i by (rule webRTCForward_closed)
  show ?thesis using a b c by (auto simp: forwardInv_def)
qed

text \<open>A message whose first three forward requests fail is forwarded by the fourth; a message
  whose forward requests all fail is tried ten times, after which the loop gives up and the
  third message is never sent.\<close>

lemma webRTCForward_attempts:
  "forwardRequests (webRTCForward [Message (1::nat) (failsFirst 3), Message 2 (failsFirst 10),
                                   Message 3 (failsFirst 0)] forwardInit)
     = replicate 4 1 @ replicate 10 2 \<and>
   forwarded (webRTCForward [Message (1::nat) (failsFirst 3), Message 2 (failsFirst 10),
                             Message 3 (failsFirst 0)] forwardInit) = [1] \<and>
   stopClosed (webRTCForward [Message (1::nat) (failsFirst 3), Message 2 (failsFirst 10),
                              Message 3 (failsFirst 0)] forwardInit) = 1"
  by (simp add: forwardInit_def failsFirst_def sendAttempts.simps maxConsecutiveErrors_def
      numeral_eq_Suc)

subsection \<open>The two loops together\<close>



lemma pollBody_polled [simp]: "polled (pollBody f ms s) = polled s @ [start s]"
  by (simp add: pollBody_def Let_def)


















text \<open>A loop that has panicked takes no further step: the receive channel stays as it is.\<close>

lemma bridgeRun_panicked:
  "pollPhase (inbound s) = Panicked \<Longrightarrow> inbound (bridgeRun as s) = inbound s"
proof (induction as arbitrary: s)
  case Nil
  then show ?case by simp
next
  case (Cons a as)
  have "inbound (bridgeStep a s) = inbound s" using Cons.prems by (cases a) simp_all
  then show ?case using Cons by simp
qed


section \<open>Properties of the uploader\<close>

subsection \<open>Chunks\<close>

lemma int64_id: "- (2 ^ 63) \<le> x \<Longrightarrow> x < 2 ^ 63 \<Longrightarrow> int64 x = x"
  by (simp add: int64_def)

lemma quo_nonneg: "0 \<le> (a::int) \<Longrightarrow> 0 < b \<Longrightarrow> sgn a * sgn b * (\<bar>a\<bar> div \<bar>b\<bar>) = a div b"
  by (cases "a = 0") (auto simp: sgn_if)

lemma sub64_add64:
  assumes "0 \<le> S" "0 < C" "S + C - 1 < 2 ^ 63"
  shows "sub64 (add64 S C) 1 = S + C - 1"
proof (cases "S + C < 2 ^ 63")
  case True
  then have "add64 S C = S + C" using assms by (simp add: add64_def int64_id)
  then show ?thesis using assms by (simp add: sub64_def int64_id)
next
  case False
  then have e: "S + C = 2 ^ 63" using assms by simp
  have "add64 S C = - (2 ^ 63)" by (simp add: add64_def e int64_def)
  then have "sub64 (add64 S C) 1 = 2 ^ 63 - 1" by (simp add: sub64_def int64_def)
  then show ?thesis using e by simp
qed

lemma totalChunks_in_range:
  assumes "0 \<le> S" "0 < C" "S + C - 1 < 2 ^ 63"
  shows "quo64 (sub64 (add64 S C) 1) C = (S + C - 1) div C"
proof -
  have c: "0 \<le> (S + C - 1) div C" "(S + C - 1) div C \<le> S + C - 1"
    using assms zdiv_mono2[of "S + C - 1" 1 C] by (auto simp: pos_imp_zdiv_nonneg_iff)
  have q: "sgn (S + C - 1) * sgn C * (\<bar>S + C - 1\<bar> div \<bar>C\<bar>) = (S + C - 1) div C"
    using assms by (intro quo_nonneg) auto
  have "int64 ((S + C - 1) div C) = (S + C - 1) div C"
    using c assms by (intro int64_id) auto
  then show ?thesis
    unfolding quo64_def sub64_add64[OF assms] q .
qed

lemma ceiling_div:
  assumes "0 \<le> (S::int)" "0 < C" "T = (S + C - 1) div C"
  shows "(T - 1) * C < S \<and> S \<le> T * C"
proof -
  have "(S + C - 1) = T * C + (S + C - 1) mod C" using assms by (simp add: mult.commute)
  moreover have "0 \<le> (S + C - 1) mod C" "(S + C - 1) mod C < C" using assms by auto
  ultimately show ?thesis by (auto simp: algebra_simps)
qed

lemma getFilesInfos_single:
  assumes "fs name = Some data" "0 < C" "int (length data) + C - 1 < 2 ^ 63"
    "Filenames u = [name]" "UploaderChunkSizeBytes u = C"
  shows "getFilesInfos u fs = Ok [\<lparr>Name = name, TotalChunks = (int (length data) + C - 1) div C\<rparr>]"
  using assms totalChunks_in_range[of "int (length data)" C]
  by (simp add: getFilesInfos_def os_Stat_Size_def)

lemma map_Suc_upto: "map (\<lambda>i. i + 1) [a..b] = [a + 1..b + 1]"
proof (induction a b rule: upto.induct)
  case (1 i j)
  show ?case
  proof (cases "i \<le> j")
    case True
    then show ?thesis using 1 by (simp add: upto_rec1[of i j] upto_rec1[of "i + 1" "j + 1"])
  next
    case False
    then show ?thesis by simp
  qed
qed

lemma jobsOfFile_eq:
  "jobsOfFile C info =
     map (\<lambda>n. \<lparr>Filename = Name info, ChunkNumber = n, JobTotalChunks = TotalChunks info,
                JobChunkSizeBytes = C\<rparr>) [1..TotalChunks info]"
proof -
  have "jobsOfFile C info =
      map (\<lambda>n. \<lparr>Filename = Name info, ChunkNumber = n, JobTotalChunks = TotalChunks info,
                JobChunkSizeBytes = C\<rparr>) (map (\<lambda>i. i + 1) [0..TotalChunks info - 1])"
    by (simp add: jobsOfFile_def comp_def)
  then show ?thesis by (simp add: map_Suc_upto)
qed

lemma writeMultipartRequest_chunk:
  assumes fs: "fs name = Some data" and C: "0 < C" and S: "S = int (length data)"
    and rng: "S + C - 1 < 2 ^ 63" and T: "T = (S + C - 1) div C" and n: "1 \<le> n" "n \<le> T"
    and job: "job = \<lparr>Filename = name, ChunkNumber = n, JobTotalChunks = T,
                      JobChunkSizeBytes = C\<rparr>"
  shows "writeMultipartRequest fs job =
           Inr \<lparr>chunk_number = n, chunk_total = T, chunk_size_bytes = C,
                file_part_name = filepath_Base name,
                file_part = take (nat C) (drop (nat ((n - 1) * C)) data)\<rparr>"
    and "int (length (take (nat C) (drop (nat ((n - 1) * C)) data))) =
           (if n < T then C else S - (n - 1) * C)"
proof -
  have S0: "0 \<le> S" using S by simp
  note cd = ceiling_div[OF S0 C T]
  have le: "(n - 1) * C \<le> (T - 1) * C" using n C by (intro mult_right_mono) auto
  then have off_lt: "(n - 1) * C < S" using cd by simp
  have off_ge: "0 \<le> (n - 1) * C" using n C by simp
  have S63: "S < 2 ^ 63" using rng C by simp
  have n63: "n - 1 < 2 ^ 63"
  proof -
    have "n - 1 \<le> (n - 1) * C" using n C by (simp add: mult_le_cancel_left1)
    then show ?thesis using off_lt S63 by simp
  qed
  have s: "sub64 n 1 = n - 1" using n n63 by (simp add: sub64_def int64_id)
  have m: "mul64 (n - 1) C = (n - 1) * C"
    using off_ge off_lt S63 by (simp add: mul64_def int64_id)
  have len_rest: "int (length (drop (nat ((n - 1) * C)) data)) = S - (n - 1) * C"
    using off_ge off_lt S by simp
  show len: "int (length (take (nat C) (drop (nat ((n - 1) * C)) data))) =
           (if n < T then C else S - (n - 1) * C)"
  proof (cases "n < T")
    case True
    then have "n * C \<le> (T - 1) * C" using C by (intro mult_right_mono) auto
    then have "C \<le> S - (n - 1) * C" using cd by (simp add: algebra_simps)
    then show ?thesis using True len_rest C by simp
  next
    case False
    then have "n = T" using n by simp
    then have "S - (n - 1) * C \<le> C" using cd by (simp add: algebra_simps)
    then show ?thesis using False len_rest C off_lt by simp
  qed
  show "writeMultipartRequest fs job =
           Inr \<lparr>chunk_number = n, chunk_total = T, chunk_size_bytes = C,
                file_part_name = filepath_Base name,
                file_part = take (nat C) (drop (nat ((n - 1) * C)) data)\<rparr>"
  proof (cases "n < T")
    case True
    then have "\<not> int (length (take (nat C) (drop (nat ((n - 1) * C)) data))) < C"
      using len by simp
    then show ?thesis
      using True fs off_ge
      by (simp add: writeMultipartRequest_def job s m io_CopyN_def Let_def)
  next
    case False
    then have "S - (n - 1) * C \<le> C" using len len_rest C
      by (metis int_nat_eq length_take min.cobounded2 nat_int of_nat_le_iff of_nat_0_le_iff order.strict_implies_order)
    then have "take (nat C) (drop (nat ((n - 1) * C)) data) = drop (nat ((n - 1) * C)) data"
      using len_rest by (intro take_all) simp
    then show ?thesis
      using False fs off_ge
      by (simp add: writeMultipartRequest_def job s m Let_def)
  qed
qed

lemma sendJobsSequence_single:
  "sendJobsSequence C [info] = jobsOfFile C info"
  by (simp add: sendJobsSequence_def)

text \<open>
  The chunks of a file whose size \<open>S\<close> and chunk size \<open>C > 0\<close> satisfy
  \<open>S + C - 1 < 2^63\<close>, so that the sum computed by \<open>getFilesInfos\<close> does not wrap around:
  \<open>TotalChunks\<close> is \<open>T = ceil(S / C)\<close>, that is \<open>(T - 1) * C < S \<le> T * C\<close>; the generator
  builds the jobs numbered 1 to \<open>T\<close> in this order; and the job numbered \<open>n\<close> sends the
  bytes of the file from offset \<open>(n - 1) * C\<close> on, \<open>C\<close> of them when \<open>n < T\<close> and the
  remaining \<open>S - (n - 1) * C\<close> when \<open>n = T\<close>.
\<close>

theorem chunks_of_file_in_range:
  assumes fs: "fs name = Some data" and C: "0 < C" and S: "S = int (length data)"
    and rng: "S + C - 1 < 2 ^ 63"
    and u: "Filenames u = [name]" "UploaderChunkSizeBytes u = C"
    and T: "T = (S + C - 1) div C"
  shows "getFilesInfos u fs = Ok [\<lparr>Name = name, TotalChunks = T\<rparr>] \<and>
         (T - 1) * C < S \<and> S \<le> T * C \<and>
         map ChunkNumber (sendJobsSequence C [\<lparr>Name = name, TotalChunks = T\<rparr>]) = [1..T] \<and>
         (\<forall>job \<in> set (sendJobsSequence C [\<lparr>Name = name, TotalChunks = T\<rparr>]).
            \<exists>body. writeMultipartRequest fs job = Inr body \<and>
              file_part body = take (nat C) (drop (nat ((ChunkNumber job - 1) * C)) data) \<and>
              int (length (file_part body)) =
                (if ChunkNumber job < T then C else S - (ChunkNumber job - 1) * C))"
proof -
  have S0: "0 \<le> S" using S by simp
  have g: "getFilesInfos u fs = Ok [\<lparr>Name = name, TotalChunks = T\<rparr>]"
    using getFilesInfos_single[of fs name data C u] fs C u rng S T by simp
  have nums: "map ChunkNumber (sendJobsSequence C [\<lparr>Name = name, TotalChunks = T\<rparr>]) = [1..T]"
    by (simp add: sendJobsSequence_single jobsOfFile_eq comp_def)
  have each: "\<exists>body. writeMultipartRequest fs job = Inr body \<and>
              file_part body = take (nat C) (drop (nat ((ChunkNumber job - 1) * C)) data) \<and>
              int (length (file_part body)) =
                (if ChunkNumber job < T then C else S - (ChunkNumber job - 1) * C)"
    if "job \<in> set (sendJobsSequence C [\<lparr>Name = name, TotalChunks = T\<rparr>])" for job
  proof -
    from that obtain n where n: "1 \<le> n" "n \<le> T"
      and job: "job = \<lparr>Filename = name, ChunkNumber = n, JobTotalChunks = T, JobChunkSizeBytes = C\<rparr>"
      by (auto simp: sendJobsSequence_single jobsOfFile_eq)
    show ?thesis
      using writeMultipartRequest_chunk[of fs name data C S T n job] fs C S rng T n job
      by simp
  qed
  show ?thesis using g ceiling_div[OF S0 C T] nums each by blast
qed

text \<open>A file of 1000 bytes with a chunk size of 300: four chunks of 300, 300, 300 and 100
  bytes, the fourth covering the bytes from 900 to the end.\<close>

theorem chunks_of_file_in_range_witness:
  "getFilesInfos (exampleUploader [''f.img''] 300) (oneFile (replicate 1000 CHR ''x'')) =
     Ok [\<lparr>Name = ''f.img'', TotalChunks = 4\<rparr>] \<and>
   map ChunkNumber (sendJobsSequence 300 [\<lparr>Name = ''f.img'', TotalChunks = 4\<rparr>]) = [1, 2, 3, 4] \<and>
   map (\<lambda>job. map_sum id (length \<circ> file_part)
          (writeMultipartRequest (oneFile (replicate 1000 CHR ''x'')) job))
       (sendJobsSequence 300 [\<lparr>Name = ''f.img'', TotalChunks = 4\<rparr>])
     = [Inr 300, Inr 300, Inr 300, Inr 100] \<and>
   map_sum id file_part (writeMultipartRequest (oneFile (replicate 1000 CHR ''x'')) (chunkJob 4 4 300))
     = Inr (drop 900 (replicate 1000 CHR ''x''))"
  using chunks_of_file_in_range[where fs = "oneFile (replicate 1000 CHR ''x'')" and name = "''f.img''"
      and data = "replicate 1000 CHR ''x''" and C = 300 and S = 1000
      and u = "exampleUploader [''f.img''] 300" and T = 4]
  by (auto simp: oneFile_def exampleUploader_def sendJobsSequence_single jobsOfFile_eq chunkJob_def
      upto_rec1)

text \<open>
  Claim C1 at a file of 2 bytes with the chunk size \<open>2^63 - 1\<close>, the largest \<open>int64\<close>. The
  claim asks for \<open>ceil(2 / (2^63 - 1)) = 1\<close> chunk. In \<open>getFilesInfos\<close> the sum
  \<open>stat.Size() + u.ChunkSizeBytes - 1\<close> wraps around to \<open>-2^63\<close>, the truncating division
  gives \<open>TotalChunks = -1\<close>, and the loops of \<open>sendJobs\<close> build no job at all: no byte of
  the file is sent.
\<close>

theorem getFilesInfos_wraps_around:
  "getFilesInfos (exampleUploader [''f.img''] (2 ^ 63 - 1)) (oneFile ''ab'') =
     Ok [\<lparr>Name = ''f.img'', TotalChunks = - 1\<rparr>] \<and>
   sendJobsSequence (2 ^ 63 - 1) [\<lparr>Name = ''f.img'', TotalChunks = - 1\<rparr>] = [] \<and>
   (1 - 1) * (2 ^ 63 - 1) < int (length ''ab'') \<and> int (length ''ab'') \<le> 1 * (2 ^ 63 - 1 :: int)"
  by (simp add: getFilesInfos_def exampleUploader_def oneFile_def os_Stat_Size_def
      add64_def sub64_def quo64_def int64_def sendJobsSequence_def jobsOfFile_def)

subsection \<open>The goroutines of Upload\<close>

lemma run_append: "run (xs @ ys) s = run ys (run xs s)"
  by (induction xs arbitrary: s) auto

lemma run_invariant:
  assumes "P s" and "\<And>a s. P s \<Longrightarrow> P (step a s)"
  shows "P (run sched s)"
  using assms(1) by (induction sched arbitrary: s) (auto intro: assms(2))

lemma errorsOf_append: "errorsOf (rs @ [r]) = errorsOf rs @ (case r of None \<Rightarrow> [] | Some e \<Rightarrow> [e])"
  by (induction rs rule: errorsOf.induct) (auto split: option.splits)

lemma firstError_append:
  "firstError (rs @ [r]) = (case firstError rs of None \<Rightarrow> r | Some e \<Rightarrow> Some e)"
  by (auto simp: firstError_def errorsOf_append split: option.splits list.splits)

lemmas step_defs = innerOf_def outerOf_def setInner_def setOuter_def collectResult_def Let_def

lemma aggInv_step: "aggInv s \<Longrightarrow> aggInv (step a s)"
  by (cases a)
    (auto simp: aggInv_def step_defs errorsOf_append firstError_append
      split: generator.splits list.splits option.splits inner.splits outer.splits)

lemma step_length [simp]: "length (workers (step a s)) = length (workers s)"
  by (cases a)
    (auto simp: step_defs split: generator.splits list.splits option.splits inner.splits outer.splits)

lemma retInv_step: "retInv s \<Longrightarrow> retInv (step a s)"
  by (cases a)
    (auto simp: retInv_def step_defs nth_list_update all_set_conv_all_nth
      split: generator.splits list.splits option.splits inner.splits outer.splits upload_phase.splits if_splits)

lemma closed_step:
  "generator s = JobsChanClosed \<Longrightarrow>
     generator (step a s) = JobsChanClosed \<and> enqueued (step a s) = enqueued s"
  by (cases a)
    (auto simp: step_defs split: generator.splits list.splits option.splits inner.splits outer.splits)

lemma closed_run:
  "generator s = JobsChanClosed \<Longrightarrow>
     generator (run sched s) = JobsChanClosed \<and> enqueued (run sched s) = enqueued s"
proof (induction sched arbitrary: s)
  case Nil
  then show ?case by simp
next
  case (Cons a sched)
  from closed_step[OF Cons.prems, of a] Cons.IH[of "step a s"] show ?case by simp
qed

lemma genInv_step: "genInv jobs s \<Longrightarrow> genInv jobs (step a s)"
  by (cases a)
    (auto simp: genInv_def step_defs split: generator.splits list.splits option.splits inner.splits outer.splits)

lemma collectResult_frame [simp]:
  "workers (collectResult r s) = workers s"
  "generator (collectResult r s) = generator s"
  "enqueued (collectResult r s) = enqueued s"
  "finished (collectResult r s) = finished s"
  "uploadPhase (collectResult r s) = uploadPhase s"
  by (auto simp: collectResult_def Let_def split: option.splits)

lemmas worker_defs = innerOf_def outerOf_def setInner_def setOuter_def

lemma wfInv_step: "wfInv s \<Longrightarrow> wfInv (step a s)"
  by (cases a)
    (auto simp: wfInv_def worker_defs nth_list_update
      split: generator.splits list.splits option.splits inner.splits outer.splits if_splits)

lemma wfInv_run: "wfInv s \<Longrightarrow> wfInv (run sched s)"
  by (rule run_invariant) (auto intro: wfInv_step)

lemma settleWorker_effect:
  assumes "wfInv s" "w < length (workers s)"
  shows "settled (run (settleWorker w) s) w \<and>
         (\<forall>k. k \<noteq> w \<longrightarrow> workers (run (settleWorker w) s) ! k = workers s ! k) \<and>
         generator (run (settleWorker w) s) = generator s"
proof -
  obtain i out where io: "workers s ! w = (i, out)" by (cases "workers s ! w")
  show ?thesis
    using assms io
    by (cases i; cases out)
      (auto simp: settleWorker_def settled_def wfInv_def worker_defs nth_list_update)
qed

lemma settled_cong: "workers s' ! k = workers s ! k \<Longrightarrow> settled s' k = settled s k"
  by (simp add: settled_def)

lemma settleAll:
  assumes "wfInv s" "n \<le> length (workers s)"
  shows "(\<forall>k<n. settled (run (concat (map settleWorker [0..<n])) s) k) \<and>
         (\<forall>k\<ge>n. workers (run (concat (map settleWorker [0..<n])) s) ! k = workers s ! k) \<and>
         generator (run (concat (map settleWorker [0..<n])) s) = generator s"
  using assms(2)
proof (induction n)
  case 0
  then show ?case by simp
next
  case (Suc n)
  let ?s1 = "run (concat (map settleWorker [0..<n])) s"
  have IH: "(\<forall>k<n. settled ?s1 k) \<and> (\<forall>k\<ge>n. workers ?s1 ! k = workers s ! k) \<and>
      generator ?s1 = generator s"
    using Suc by simp
  have wf1: "wfInv ?s1" using assms(1) by (rule wfInv_run)
  have len1: "length (workers ?s1) = length (workers s)"
    using wf1 assms(1) by (simp add: wfInv_def)
  have n: "n < length (workers ?s1)" using Suc.prems len1 by simp
  note e = settleWorker_effect[OF wf1 n]
  have r: "run (concat (map settleWorker [0..<Suc n])) s = run (settleWorker n) ?s1"
    by (simp add: run_append)
  define s2 where "s2 = run (settleWorker n) ?s1"
  have en: "settled s2 n" and ek: "\<And>k. k \<noteq> n \<Longrightarrow> workers s2 ! k = workers ?s1 ! k"
    and eg: "generator s2 = generator ?s1"
    using e unfolding s2_def by blast+
  have a: "settled s2 k" if "k < Suc n" for k
  proof (cases "k = n")
    case True
    then show ?thesis using en by simp
  next
    case False
    then have "k < n" using that by simp
    then have "settled ?s1 k" using IH by blast
    then show ?thesis using ek[OF False] by (simp add: settled_def)
  qed
  have b: "workers s2 ! k = workers s ! k" if "Suc n \<le> k" for k
  proof -
    have "k \<noteq> n" "n \<le> k" using that by simp_all
    then show ?thesis using ek[of k] IH by simp
  qed
  have g: "generator s2 = generator s" using eg IH by simp
  show ?case unfolding r s2_def[symmetric]
  proof (intro conjI allI impI)
    fix k assume "k < Suc n" then show "settled s2 k" by (rule a)
  next
    fix k assume "Suc n \<le> k" then show "workers s2 ! k = workers s ! k" by (rule b)
  next
    show "generator s2 = generator s" by (rule g)
  qed
qed

lemma feed_one:
  assumes wf: "wfInv s" and st: "\<forall>k<length (workers s). settled s k"
  shows "(\<forall>k<length (workers s). settled (run (SendJob 0 # settleWorker 0) s) k) \<and>
         pendingJobs (generator (run (SendJob 0 # settleWorker 0) s)) = tl (pendingJobs (generator s)) \<and>
         (generator s = JobsChanClosed \<longrightarrow> generator (run (SendJob 0 # settleWorker 0) s) = JobsChanClosed)"
proof -
  have len: "0 < length (workers s)" using wf by (simp add: wfInv_def openConnections_def)
  let ?s1 = "step (SendJob 0) s"
  have wf1: "wfInv ?s1" using wf by (rule wfInv_step)
  have len1: "0 < length (workers ?s1)" using len by (simp del: step.simps)
  note e = settleWorker_effect[OF wf1 len1]
  have others: "\<forall>k. k \<noteq> 0 \<longrightarrow> workers ?s1 ! k = workers s ! k"
    by (auto simp: worker_defs split: generator.splits list.splits)
  have gen: "pendingJobs (generator ?s1) = tl (pendingJobs (generator s))"
  proof (cases "generator s")
    case (Sending js)
    show ?thesis
    proof (cases js)
      case Nil
      then show ?thesis using Sending by simp
    next
      case (Cons j js')
      have "fst (workers s ! 0) \<noteq> InnerExited"
        using wf len Sending by (auto simp: wfInv_def)
      then have "fst (workers s ! 0) = Idle" using st len by (auto simp: settled_def)
      then show ?thesis using Sending Cons len by (simp add: worker_defs)
    qed
  next
    case JobsChanClosed
    then show ?thesis by simp
  qed
  have cl: "generator s = JobsChanClosed \<longrightarrow> generator ?s1 = JobsChanClosed"
    by simp
  define s2 where "s2 = run (settleWorker 0) ?s1"
  have r: "run (SendJob 0 # settleWorker 0) s = s2" by (simp add: s2_def)
  have e0: "settled s2 0" and ek: "\<And>k. k \<noteq> 0 \<Longrightarrow> workers s2 ! k = workers ?s1 ! k"
    and eg: "generator s2 = generator ?s1"
    using e unfolding s2_def by blast+
  have "settled s2 k" if "k < length (workers s)" for k
  proof (cases "k = 0")
    case True
    then show ?thesis using e0 by simp
  next
    case False
    then have "workers s2 ! k = workers s ! k" using ek[OF False] others by simp
    then show ?thesis using st that by (simp add: settled_def)
  qed
  then show ?thesis unfolding r using eg gen cl by (simp del: step.simps)
qed

lemma run_length [simp]: "length (workers (run sched s)) = length (workers s)"
  by (induction sched arbitrary: s) (simp_all del: step.simps)

lemma retInv_run: "retInv s \<Longrightarrow> retInv (run sched s)"
  by (rule run_invariant) (auto intro: retInv_step)

lemma aggInv_run: "aggInv s \<Longrightarrow> aggInv (run sched s)"
  by (rule run_invariant) (auto intro: aggInv_step)

lemma genInv_run: "genInv jobs s \<Longrightarrow> genInv jobs (run sched s)"
  by (rule run_invariant) (auto intro: genInv_step)

lemma feedAll:
  assumes "wfInv s" "\<forall>k<length (workers s). settled s k"
  shows "(\<forall>k<length (workers s).
            settled (run (concat (replicate n (SendJob 0 # settleWorker 0))) s) k) \<and>
         pendingJobs (generator (run (concat (replicate n (SendJob 0 # settleWorker 0))) s))
           = drop n (pendingJobs (generator s))"
  using assms
proof (induction n arbitrary: s)
  case 0
  then show ?case by simp
next
  case (Suc n)
  define s1 where "s1 = run (SendJob 0 # settleWorker 0) s"
  have f: "(\<forall>k<length (workers s). settled s1 k) \<and>
           pendingJobs (generator s1) = tl (pendingJobs (generator s))"
    unfolding s1_def using feed_one[OF Suc.prems] by blast
  have wf1: "wfInv s1" unfolding s1_def using Suc.prems(1) by (rule wfInv_run)
  have len: "length (workers s1) = length (workers s)" unfolding s1_def by (rule run_length)
  have st1: "\<forall>k<length (workers s1). settled s1 k" using f len by simp
  have r: "run (concat (replicate (Suc n) (SendJob 0 # settleWorker 0))) s =
           run (concat (replicate n (SendJob 0 # settleWorker 0))) s1"
    unfolding s1_def by (simp only: replicate_Suc concat.simps run_append)
  show ?case
    unfolding r using Suc.IH[OF wf1 st1] f len by (simp add: drop_Suc)
qed

lemma pass:
  assumes stp: "\<And>s w. I s \<Longrightarrow> w < length (workers s) \<Longrightarrow> P (workers s ! w) \<Longrightarrow>
        I (step (act w) s) \<and> Q (workers (step (act w) s) ! w) \<and>
        (\<forall>k. k \<noteq> w \<longrightarrow> workers (step (act w) s) ! k = workers s ! k)"
    and I: "I s" and P: "\<forall>k<length (workers s). P (workers s ! k)"
    and n: "n \<le> length (workers s)"
  shows "I (run (map act [0..<n]) s) \<and>
         (\<forall>k<n. Q (workers (run (map act [0..<n]) s) ! k)) \<and>
         (\<forall>k\<ge>n. workers (run (map act [0..<n]) s) ! k = workers s ! k)"
  using n
proof (induction n)
  case 0
  then show ?case using I by simp
next
  case (Suc n)
  define s1 where "s1 = run (map act [0..<n]) s"
  have IH: "I s1" "\<And>k. k < n \<Longrightarrow> Q (workers s1 ! k)"
    "\<And>k. n \<le> k \<Longrightarrow> workers s1 ! k = workers s ! k"
    using Suc unfolding s1_def by simp_all
  have len: "n < length (workers s1)" using Suc.prems unfolding s1_def by simp
  have Pn: "P (workers s1 ! n)" using IH(3)[of n] P Suc.prems by simp
  define s2 where "s2 = step (act n) s1"
  have e: "I s2" "Q (workers s2 ! n)" "\<And>k. k \<noteq> n \<Longrightarrow> workers s2 ! k = workers s1 ! k"
    using stp[OF IH(1) len Pn] unfolding s2_def by blast+
  have r: "run (map act [0..<Suc n]) s = s2"
    unfolding s2_def s1_def by (simp add: run_append del: step.simps)
  show ?case unfolding r
  proof (intro conjI allI impI)
    show "I s2" by (rule e(1))
  next
    fix k assume "k < Suc n"
    then show "Q (workers s2 ! k)" using e(2) e(3)[of k] IH(2)[of k] by (cases "k = n") auto
  next
    fix k assume "Suc n \<le> k"
    then show "workers s2 ! k = workers s ! k" using e(3)[of k] IH(3)[of k] by simp
  qed
qed

lemma innerExit_pass:
  assumes "generator s = JobsChanClosed" "\<forall>k<length (workers s). settled s k"
  shows "\<forall>k<length (workers s).
           fst (workers (run (map InnerExit [0..<length (workers s)]) s) ! k) = InnerExited \<and>
           (snd (workers (run (map InnerExit [0..<length (workers s)]) s) ! k) = Waiting \<or>
            snd (workers (run (map InnerExit [0..<length (workers s)]) s) ! k) = OuterExited)"
proof -
  have "generator (run (map InnerExit [0..<length (workers s)]) s) = JobsChanClosed \<and>
     (\<forall>k<length (workers s). (\<lambda>wk. fst wk = InnerExited \<and> (snd wk = Waiting \<or> snd wk = OuterExited))
         (workers (run (map InnerExit [0..<length (workers s)]) s) ! k)) \<and>
     (\<forall>k\<ge>length (workers s). workers (run (map InnerExit [0..<length (workers s)]) s) ! k = workers s ! k)"
  proof (rule pass[where I = "\<lambda>s. generator s = JobsChanClosed"
        and P = "\<lambda>wk. (fst wk = Idle \<or> fst wk = InnerExited) \<and> (snd wk = Waiting \<or> snd wk = OuterExited)"])
    fix t :: upload_state and w
    assume "generator t = JobsChanClosed" "w < length (workers t)"
      "(fst (workers t ! w) = Idle \<or> fst (workers t ! w) = InnerExited) \<and>
       (snd (workers t ! w) = Waiting \<or> snd (workers t ! w) = OuterExited)"
    then show "generator (step (InnerExit w) t) = JobsChanClosed \<and>
       (fst (workers (step (InnerExit w) t) ! w) = InnerExited \<and>
        (snd (workers (step (InnerExit w) t) ! w) = Waiting \<or>
         snd (workers (step (InnerExit w) t) ! w) = OuterExited)) \<and>
       (\<forall>k. k \<noteq> w \<longrightarrow> workers (step (InnerExit w) t) ! k = workers t ! k)"
      by (auto simp: worker_defs)
  next
    show "generator s = JobsChanClosed" by (rule assms(1))
  next
    show "\<forall>k<length (workers s). (fst (workers s ! k) = Idle \<or> fst (workers s ! k) = InnerExited) \<and>
       (snd (workers s ! k) = Waiting \<or> snd (workers s ! k) = OuterExited)"
      using assms(2) by (simp add: settled_def)
  next
    show "length (workers s) \<le> length (workers s)" by simp
  qed
  then show ?thesis by blast
qed

lemma outerExit_pass:
  assumes "\<forall>k<length (workers s). fst (workers s ! k) = InnerExited \<and>
             (snd (workers s ! k) = Waiting \<or> snd (workers s ! k) = OuterExited)"
  shows "\<forall>k<length (workers s).
           snd (workers (run (map OuterExit [0..<length (workers s)]) s) ! k) = OuterExited"
proof -
  have "True \<and>
     (\<forall>k<length (workers s). (\<lambda>wk. snd wk = OuterExited)
         (workers (run (map OuterExit [0..<length (workers s)]) s) ! k)) \<and>
     (\<forall>k\<ge>length (workers s). workers (run (map OuterExit [0..<length (workers s)]) s) ! k = workers s ! k)"
  proof (rule pass[where I = "\<lambda>s. True"
        and P = "\<lambda>wk. fst wk = InnerExited \<and> (snd wk = Waiting \<or> snd wk = OuterExited)"])
    fix t :: upload_state and w
    assume "w < length (workers t)"
      "fst (workers t ! w) = InnerExited \<and>
       (snd (workers t ! w) = Waiting \<or> snd (workers t ! w) = OuterExited)"
    then show "True \<and> snd (workers (step (OuterExit w) t) ! w) = OuterExited \<and>
       (\<forall>k. k \<noteq> w \<longrightarrow> workers (step (OuterExit w) t) ! k = workers t ! k)"
      by (auto simp: worker_defs)
  next
    show True by simp
  next
    show "\<forall>k<length (workers s). fst (workers s ! k) = InnerExited \<and>
       (snd (workers s ! k) = Waiting \<or> snd (workers s ! k) = OuterExited)"
      by (rule assms)
  next
    show "length (workers s) \<le> length (workers s)" by simp
  qed
  then show ?thesis by blast
qed

lemma phase_kept:
  "uploadPhase s = UploadReturned r \<Longrightarrow> uploadPhase (step a s) = UploadReturned r"
  by (cases a)
    (auto simp: worker_defs split: generator.splits list.splits option.splits inner.splits outer.splits)

lemma completion_returns:
  assumes wf: "wfInv s" and ret: "retInv s" and n: "length (pendingJobs (generator s)) \<le> n"
  shows "\<exists>r. uploadPhase (run (completion n) s) = UploadReturned r"
proof -
  have len: "length (workers s) = openConnections" using wf by (simp add: wfInv_def)
  define s1 where "s1 = run (concat (map settleWorker [0..<openConnections])) s"
  define s2 where "s2 = run (concat (replicate n (SendJob 0 # settleWorker 0))) s1"
  define s3 where "s3 = step CloseJobsChan s2"
  define s4 where "s4 = run (map InnerExit [0..<openConnections]) s3"
  define s5 where "s5 = run (map OuterExit [0..<openConnections]) s4"
  have r: "run (completion n) s = step Return s5"
    unfolding completion_def s5_def s4_def s3_def s2_def s1_def
    by (simp add: run_append del: step.simps)
  have l1: "length (workers s1) = openConnections" unfolding s1_def using len by simp
  have l2: "length (workers s2) = openConnections" unfolding s2_def using l1 by simp
  have l3: "length (workers s3) = openConnections"
    unfolding s3_def using l2 by (simp del: step.simps)
  have l4: "length (workers s4) = openConnections" unfolding s4_def using l3 by simp
  have l5: "length (workers s5) = openConnections" unfolding s5_def using l4 by simp
  have wf1: "wfInv s1" unfolding s1_def using wf by (rule wfInv_run)
  have a1: "\<forall>k<length (workers s1). settled s1 k" and g1: "generator s1 = generator s"
    using settleAll[OF wf, of openConnections] len l1 unfolding s1_def by simp_all
  have a2: "\<forall>k<length (workers s2). settled s2 k"
    and g2: "pendingJobs (generator s2) = []"
    using feedAll[OF wf1 a1, of n] l1 l2 g1 n unfolding s2_def by simp_all
  have w3: "workers s3 = workers s2" and g3: "generator s3 = JobsChanClosed"
    using g2 unfolding s3_def by (cases "generator s2"; auto split: list.splits)+
  have a3: "\<forall>k<length (workers s3). settled s3 k"
    using a2 w3 by (simp add: settled_def)
  have a4: "\<forall>k<length (workers s4). fst (workers s4 ! k) = InnerExited \<and>
             (snd (workers s4 ! k) = Waiting \<or> snd (workers s4 ! k) = OuterExited)"
    using innerExit_pass[OF g3 a3] l3 l4 unfolding s4_def by simp
  have a5: "\<forall>k<length (workers s5). snd (workers s5 ! k) = OuterExited"
    using outerExit_pass[OF a4] l4 l5 unfolding s5_def by simp
  then have all5: "\<forall>wk \<in> set (workers s5). snd wk = OuterExited"
    by (simp add: all_set_conv_all_nth)
  have "retInv s5"
    unfolding s5_def s4_def s3_def s2_def s1_def
    by (intro retInv_run retInv_step ret)
  then have "uploadPhase s5 = UploadRunning \<or> (\<exists>r. uploadPhase s5 = UploadReturned r)"
    by (cases "uploadPhase s5") (auto simp: retInv_def)
  then show ?thesis unfolding r using all5 by auto
qed

lemma started_invs:
  "wfInv (started jobs)" "retInv (started jobs)" "aggInv (started jobs)" "genInv jobs (started jobs)"
  by (auto simp: started_def notStarted_def wfInv_def retInv_def aggInv_def genInv_def
      firstError_def)

lemma idleInv_step: "idleInv s \<Longrightarrow> idleInv (step a s)"
proof (cases a)
  case (SendJob w)
  assume "idleInv s"
  then show ?thesis using SendJob
    by (cases "generator s") (auto simp: idleInv_def split: list.splits)
next
  case ObserveDone
  assume "idleInv s"
  then show ?thesis using ObserveDone
    by (cases "generator s") (auto simp: idleInv_def settled_def split: list.splits)
next
  case CloseJobsChan
  assume "idleInv s"
  then show ?thesis using CloseJobsChan
    by (cases "generator s") (auto simp: idleInv_def settled_def split: list.splits)
next
  case (FinishJob w r)
  assume "idleInv s"
  then show ?thesis using FinishJob
    by (auto simp: idleInv_def settled_def innerOf_def split: inner.splits)
next
  case (HandOver w)
  assume "idleInv s"
  then show ?thesis using HandOver
    by (auto simp: idleInv_def settled_def innerOf_def split: inner.splits)
next
  case (Collect w)
  assume "idleInv s"
  then show ?thesis using Collect
    by (auto simp: idleInv_def settled_def outerOf_def split: outer.splits)
next
  case (InnerExit w)
  assume "idleInv s"
  then show ?thesis using InnerExit
    by (auto simp: idleInv_def settled_def worker_defs nth_list_update)
next
  case (OuterExit w)
  assume "idleInv s"
  then show ?thesis using OuterExit
    by (auto simp: idleInv_def settled_def worker_defs nth_list_update)
next
  case Return
  assume "idleInv s"
  then show ?thesis using Return by (auto simp: idleInv_def settled_def)
qed

lemma idleInv_run: "idleInv s \<Longrightarrow> idleInv (run sched s)"
  by (rule run_invariant) (auto intro: idleInv_step)

lemma started_idle: "idleInv (started [])"
  by (simp add: idleInv_def started_def notStarted_def settled_def)

lemma returnErr_collectResult:
  "returnErr (collectResult r s) = (case returnErr s of None \<Rightarrow> r | Some e \<Rightarrow> Some e)"
  by (auto simp: collectResult_def Let_def split: option.splits)

lemma returnErr_kept: "returnErr s \<noteq> None \<Longrightarrow> returnErr (step a s) \<noteq> None"
  by (cases a)
    (auto simp: worker_defs returnErr_collectResult
      split: generator.splits list.splits option.splits inner.splits outer.splits)

lemma inFlight_kept:
  assumes "errorInFlight s k" "k < length (workers s)"
  shows "errorInFlight (step a s) k \<or> returnErr (step a s) \<noteq> None"
proof (cases a)
  case (SendJob w)
  then show ?thesis using assms
    by (cases "generator s")
      (auto simp: errorInFlight_def worker_defs nth_list_update split: list.splits)
next
  case ObserveDone
  then show ?thesis using assms
    by (cases "generator s") (auto simp: errorInFlight_def split: list.splits)
next
  case CloseJobsChan
  then show ?thesis using assms
    by (cases "generator s") (auto simp: errorInFlight_def split: list.splits)
next
  case (FinishJob w r)
  then show ?thesis using assms
    by (auto simp: errorInFlight_def worker_defs nth_list_update split: inner.splits)
next
  case (HandOver w)
  then show ?thesis using assms
    by (auto simp: errorInFlight_def worker_defs nth_list_update split: inner.splits)
next
  case (Collect w)
  then show ?thesis using assms
    by (auto simp: errorInFlight_def worker_defs nth_list_update returnErr_collectResult
        split: outer.splits option.splits)
next
  case (InnerExit w)
  then show ?thesis using assms
    by (auto simp: errorInFlight_def worker_defs nth_list_update)
next
  case (OuterExit w)
  then show ?thesis using assms
    by (auto simp: errorInFlight_def worker_defs nth_list_update)
next
  case Return
  then show ?thesis using assms by (auto simp: errorInFlight_def)
qed

lemma finished_step:
  "finished (step a s) = finished s \<or>
   (\<exists>w j r. a = FinishJob w r \<and> w < length (workers s) \<and> finished (step a s) = finished s @ [(j, r)] \<and>
      fst (workers (step a s) ! w) = Reporting r)"
  by (cases a)
    (auto simp: worker_defs
      split: generator.splits list.splits option.splits inner.splits outer.splits)

lemma failInv_step:
  assumes "failInv s"
  shows "failInv (step a s)"
  unfolding failInv_def
proof
  assume "\<exists>j e. (j, Some e) \<in> set (finished (step a s))"
  then obtain j e where je: "(j, Some e) \<in> set (finished (step a s))" by blast
  show "returnErr (step a s) \<noteq> None \<or> (\<exists>k<length (workers (step a s)). errorInFlight (step a s) k)"
  proof (cases "(j, Some e) \<in> set (finished s)")
    case True
    then have "returnErr s \<noteq> None \<or> (\<exists>k<length (workers s). errorInFlight s k)"
      using assms by (auto simp: failInv_def)
    then show ?thesis
    proof
      assume "returnErr s \<noteq> None"
      then show ?thesis using returnErr_kept by blast
    next
      assume "\<exists>k<length (workers s). errorInFlight s k"
      then obtain k where k: "k < length (workers s)" "errorInFlight s k" by blast
      from inFlight_kept[OF k(2) k(1), of a] k(1) show ?thesis
        by (auto simp del: step.simps)
    qed
  next
    case False
    with je finished_step[of a s] obtain w j' r where
      w: "w < length (workers s)" "finished (step a s) = finished s @ [(j', r)]"
         "fst (workers (step a s) ! w) = Reporting r"
      by auto
    then have "r = Some e" using je False by auto
    then have "errorInFlight (step a s) w" using w(3) by (auto simp: errorInFlight_def)
    then show ?thesis using w(1) by (auto simp del: step.simps)
  qed
qed

lemma failInv_run: "failInv s \<Longrightarrow> failInv (run sched s)"
  by (rule run_invariant) (auto intro: failInv_step)

lemma started_failInv: "failInv (started jobs)"
  by (simp add: failInv_def started_def notStarted_def)

lemma returned_no_flight:
  assumes "wfInv s" "retInv s" "uploadPhase s = UploadReturned r" "k < length (workers s)"
  shows "\<not> errorInFlight s k"
  using assms by (auto simp: wfInv_def retInv_def errorInFlight_def)

lemma sum_list_map_update:
  fixes f :: "'a \<Rightarrow> 'b::comm_monoid_add"
  shows "k < length ws \<Longrightarrow> sum_list (map f (ws[k := y])) + f (ws ! k) = sum_list (map f ws) + f y"
proof (induction ws arbitrary: k)
  case Nil
  then show ?case by simp
next
  case (Cons w ws)
  show ?case
  proof (cases k)
    case 0
    then show ?thesis by (simp add: ac_simps)
  next
    case (Suc n)
    then have "n < length ws" using Cons.prems by simp
    from Cons.IH[OF this] show ?thesis using Suc by (simp add: ac_simps)
  qed
qed

lemma inFlight_update:
  assumes "k < length (workers s)" "workers s' = (workers s)[k := wk]"
  shows "inFlight s' + flightOf (workers s ! k) = inFlight s + flightOf wk"
  using sum_list_map_update[OF assms(1), of flightOf wk] assms(2) by (simp add: inFlight_def)

lemma inFlight_same: "workers s' = workers s \<Longrightarrow> inFlight s' = inFlight s"
  by (simp add: inFlight_def)

lemma received_collectResult [simp]: "received (collectResult r s) = received s @ [r]"
  by (auto simp: collectResult_def Let_def split: option.splits)

lemma finished_collectResult [simp]: "finished (collectResult r s) = finished s"
  by (auto simp: collectResult_def Let_def split: option.splits)

lemma flightInv_step:
  assumes "flightInv s"
  shows "flightInv (step a s)"
proof (cases a)
  case (SendJob w)
  show ?thesis
  proof (cases "\<exists>j js. generator s = Sending (j # js) \<and> innerOf s w = Some Idle")
    case False
    then have "step a s = s" using SendJob
      by (auto split: generator.splits list.splits)
    then show ?thesis using assms by simp
  next
    case True
    then obtain j js where g: "generator s = Sending (j # js)" and i: "innerOf s w = Some Idle" by blast
    have w: "w < length (workers s)" "fst (workers s ! w) = Idle"
      using i by (auto simp: innerOf_def split: if_splits)
    define s' where "s' = step a s"
    have ws: "workers s' = (workers s)[w := (Busy j, snd (workers s ! w))]"
      and fr: "finished s' = finished s" "received s' = received s"
      using g i SendJob by (simp_all add: s'_def setInner_def)
    from inFlight_update[OF w(1) ws] w(2) have "inFlight s' = inFlight s"
      by (simp add: flightOf_def)
    then show ?thesis using assms fr unfolding s'_def[symmetric] flightInv_def by simp
  qed
next
  case ObserveDone
  then have "workers (step a s) = workers s" "finished (step a s) = finished s"
    "received (step a s) = received s"
    by (auto split: generator.splits list.splits)
  then show ?thesis using assms inFlight_same[of "step a s" s] by (simp add: flightInv_def)
next
  case CloseJobsChan
  then have "workers (step a s) = workers s" "finished (step a s) = finished s"
    "received (step a s) = received s"
    by (auto split: generator.splits list.splits)
  then show ?thesis using assms inFlight_same[of "step a s" s] by (simp add: flightInv_def)
next
  case (FinishJob w r)
  show ?thesis
  proof (cases "\<exists>j. innerOf s w = Some (Busy j)")
    case False
    then have "step a s = s" using FinishJob
      by (auto split: option.splits inner.splits)
    then show ?thesis using assms by simp
  next
    case True
    then obtain j where i: "innerOf s w = Some (Busy j)" by blast
    have w: "w < length (workers s)" "fst (workers s ! w) = Busy j"
      using i by (auto simp: innerOf_def split: if_splits)
    define s' where "s' = step a s"
    have ws: "workers s' = (workers s)[w := (Reporting r, snd (workers s ! w))]"
      and fr: "finished s' = finished s @ [(j, r)]" "received s' = received s"
      using i FinishJob by (simp_all add: s'_def setInner_def)
    from inFlight_update[OF w(1) ws] w(2) have "inFlight s' = inFlight s + {#r#}"
      by (simp add: flightOf_def)
    then show ?thesis using assms fr unfolding s'_def[symmetric] flightInv_def by simp
  qed
next
  case (HandOver w)
  show ?thesis
  proof (cases "\<exists>r. innerOf s w = Some (Reporting r) \<and> outerOf s w = Some Waiting")
    case False
    then have "step a s = s" using HandOver
      by (auto split: option.splits inner.splits)
    then show ?thesis using assms by simp
  next
    case True
    then obtain r where i: "innerOf s w = Some (Reporting r)" and out: "outerOf s w = Some Waiting"
      by blast
    have w: "w < length (workers s)" "fst (workers s ! w) = Reporting r" "snd (workers s ! w) = Waiting"
      using i out by (auto simp: innerOf_def outerOf_def split: if_splits)
    define s' where "s' = step a s"
    have ws: "workers s' = (workers s)[w := (Idle, Holding r)]"
      and fr: "finished s' = finished s" "received s' = received s"
      using i out HandOver w(1) by (simp_all add: s'_def setInner_def setOuter_def)
    from inFlight_update[OF w(1) ws] w(2,3) have "inFlight s' = inFlight s"
      by (simp add: flightOf_def)
    then show ?thesis using assms fr unfolding s'_def[symmetric] flightInv_def by simp
  qed
next
  case (Collect w)
  show ?thesis
  proof (cases "\<exists>r. outerOf s w = Some (Holding r)")
    case False
    then have "step a s = s" using Collect
      by (auto split: option.splits outer.splits)
    then show ?thesis using assms by simp
  next
    case True
    then obtain r where out: "outerOf s w = Some (Holding r)" by blast
    have w: "w < length (workers s)" "snd (workers s ! w) = Holding r"
      using out by (auto simp: outerOf_def split: if_splits)
    define s' where "s' = step a s"
    have ws: "workers s' = (workers s)[w := (fst (workers s ! w), Waiting)]"
      and fr: "finished s' = finished s" "received s' = received s @ [r]"
      using out Collect by (simp_all add: s'_def setOuter_def)
    from inFlight_update[OF w(1) ws] w(2) have "inFlight s' + {#r#} = inFlight s"
      by (simp add: flightOf_def ac_simps)
    then show ?thesis using assms fr unfolding s'_def[symmetric] flightInv_def
      by (simp add: ac_simps)
  qed
next
  case (InnerExit w)
  show ?thesis
  proof (cases "innerOf s w = Some Idle \<and> generator s = JobsChanClosed")
    case False
    then have "step a s = s" using InnerExit by auto
    then show ?thesis using assms by simp
  next
    case True
    have w: "w < length (workers s)" "fst (workers s ! w) = Idle"
      using True by (auto simp: innerOf_def split: if_splits)
    define s' where "s' = step a s"
    have ws: "workers s' = (workers s)[w := (InnerExited, snd (workers s ! w))]"
      and fr: "finished s' = finished s" "received s' = received s"
      using True InnerExit by (simp_all add: s'_def setInner_def)
    from inFlight_update[OF w(1) ws] w(2) have "inFlight s' = inFlight s"
      by (simp add: flightOf_def)
    then show ?thesis using assms fr unfolding s'_def[symmetric] flightInv_def by simp
  qed
next
  case (OuterExit w)
  show ?thesis
  proof (cases "outerOf s w = Some Waiting \<and> innerOf s w = Some InnerExited")
    case False
    then have "step a s = s" using OuterExit by auto
    then show ?thesis using assms by simp
  next
    case True
    have w: "w < length (workers s)" "snd (workers s ! w) = Waiting"
      using True by (auto simp: outerOf_def split: if_splits)
    define s' where "s' = step a s"
    have ws: "workers s' = (workers s)[w := (fst (workers s ! w), OuterExited)]"
      and fr: "finished s' = finished s" "received s' = received s"
      using True OuterExit by (simp_all add: s'_def setOuter_def)
    from inFlight_update[OF w(1) ws] w(2) have "inFlight s' = inFlight s"
      by (simp add: flightOf_def)
    then show ?thesis using assms fr unfolding s'_def[symmetric] flightInv_def by simp
  qed
next
  case Return
  then have "workers (step a s) = workers s" "finished (step a s) = finished s"
    "received (step a s) = received s"
    by auto
  then show ?thesis using assms inFlight_same[of "step a s" s] by (simp add: flightInv_def)
qed

lemma flightInv_run: "flightInv s \<Longrightarrow> flightInv (run sched s)"
  by (rule run_invariant) (auto intro: flightInv_step)

lemma sum_list_empty:
  "\<forall>x \<in> set xs. f x = ({#} :: 'b multiset) \<Longrightarrow> sum_list (map f xs) = {#}"
  by (induction xs) auto

lemma started_flightInv: "flightInv (started jobs)"
proof -
  have "inFlight (started jobs) = {#}"
    unfolding inFlight_def
    by (rule sum_list_empty) (simp add: started_def notStarted_def flightOf_def)
  then show ?thesis by (simp add: flightInv_def started_def notStarted_def)
qed

lemma returned_nothing_inFlight:
  assumes "wfInv s" "retInv s" "uploadPhase s = UploadReturned r"
  shows "inFlight s = {#}"
proof -
  have "\<forall>wk \<in> set (workers s). flightOf wk = {#}"
  proof
    fix wk assume "wk \<in> set (workers s)"
    then obtain k where k: "k < length (workers s)" "wk = workers s ! k"
      by (auto simp: in_set_conv_nth)
    then have "snd wk = OuterExited" "fst wk = InnerExited"
      using assms by (auto simp: wfInv_def retInv_def)
    then show "flightOf wk = {#}" by (simp add: flightOf_def)
  qed
  then show ?thesis unfolding inFlight_def by (rule sum_list_empty)
qed

lemma errorsOf_mset: "mset rs = mset rs' \<Longrightarrow> mset (errorsOf rs) = mset (errorsOf rs')"
proof -
  have e: "mset (errorsOf rs) = image_mset the (filter_mset (\<lambda>r. r \<noteq> None) (mset rs))" for rs
    by (induction rs rule: errorsOf.induct) simp_all
  show "mset rs = mset rs' \<Longrightarrow> mset (errorsOf rs) = mset (errorsOf rs')"
    by (simp add: e)
qed

lemma firstError_Some: "Some e \<in> set rs \<Longrightarrow> firstError rs \<noteq> None"
  by (induction rs rule: errorsOf.induct) (auto simp: firstError_def)

lemma Upload_Ok:
  "getFilesInfos u fs = Ok infos \<Longrightarrow>
     Upload u fs sched = run sched (started (sendJobsSequence (UploaderChunkSizeBytes u) infos))"
  by (simp add: Upload_def)

lemma genInv_pending:
  "genInv jobs s \<Longrightarrow> length (pendingJobs (generator s)) \<le> length jobs"
  by (cases "generator s") (auto simp: genInv_def)

text \<open>
  Claim C3, as amended. Let the file sizes be known and let \<open>s\<close> be any state that \<open>Upload\<close>
  reaches, under any schedule of its goroutines and any results of the chunk uploads.
  \<^item> Every error received from the workers so far is reported on \<open>DumpOut\<close>, in the order of
    arrival; \<open>returnErr\<close> is the first of them, the later ones are kept nowhere else; the
    context is cancelled exactly when an error was received.
  \<^item> Every result that the retry loop of a chunk ended with has been received by \<open>Upload\<close>
    or is on its way there, held by a goroutine of a worker.
  \<^item> When \<open>Upload\<close> has returned, nothing is on its way any more: every result that a retry
    loop ended with was received, every error among them was reported on \<open>DumpOut\<close>, and
    \<open>Upload\<close> returned the first error received, which is a non-nil error as soon as the
    retry loop of some chunk ended with an error.
  \<^item> \<open>Upload\<close> can always come to its end: the schedule \<open>completion\<close> lets it return.
  \<^item> The jobs enqueued are an initial part of the job sequence (file order, then chunk
    order). Once the context is cancelled and a job is pending, the cancellation case of
    the generator's \<open>select\<close> can be taken; once it was taken (or the jobs ran out), no
    further job is enqueued, whatever happens later.
  The claim as stated, that no job is enqueued after the cancellation itself, is left out:
  it does not hold, as the counterexample below shows.
\<close>

theorem Upload_first_error_wins:
  assumes infos: "getFilesInfos u fs = Ok infos"
    and jobs: "jobs = sendJobsSequence (UploaderChunkSizeBytes u) infos"
    and s: "s = Upload u fs sched"
  shows "uploadDumpOut s = errorsOf (received s) \<and>
         returnErr s = firstError (received s) \<and>
         ctxDone s = (returnErr s \<noteq> None) \<and>
         mset (map snd (finished s)) = mset (received s) + inFlight s \<and>
         (\<forall>r. uploadPhase s = UploadReturned r \<longrightarrow>
              r = firstError (received s) \<and>
              mset (map snd (finished s)) = mset (received s) \<and>
              mset (errorsOf (map snd (finished s))) = mset (uploadDumpOut s) \<and>
              ((\<exists>j e. (j, Some e) \<in> set (finished s)) \<longrightarrow> r \<noteq> None)) \<and>
         (\<exists>r. uploadPhase (Upload u fs (sched @ completion (length jobs))) = UploadReturned r) \<and>
         (\<exists>rest. jobs = enqueued s @ rest) \<and>
         (generator s = JobsChanClosed \<longrightarrow> enqueued (Upload u fs (sched @ later)) = enqueued s) \<and>
         (ctxDone s \<and> pendingJobs (generator s) \<noteq> [] \<longrightarrow>
              generator (step ObserveDone s) = JobsChanClosed)"
proof -
  have s_run: "s = run sched (started jobs)" using s jobs Upload_Ok[OF infos] by simp
  have agg: "aggInv s" unfolding s_run by (intro aggInv_run started_invs)
  have ret: "retInv s" unfolding s_run by (intro retInv_run started_invs)
  have wf: "wfInv s" unfolding s_run by (intro wfInv_run started_invs)
  have gen: "genInv jobs s" unfolding s_run by (intro genInv_run started_invs)
  have fail: "failInv s" unfolding s_run by (intro failInv_run started_failInv)
  have fl: "flightInv s" unfolding s_run by (intro flightInv_run started_flightInv)
  have p0: "mset (map snd (finished s)) = mset (received s) + inFlight s"
    using fl by (simp add: flightInv_def)
  have p1: "uploadDumpOut s = errorsOf (received s)"
    and p2: "returnErr s = firstError (received s)"
    and p3: "ctxDone s = (returnErr s \<noteq> None)"
    using agg by (simp_all add: aggInv_def)
  have p4: "r = firstError (received s) \<and>
            mset (map snd (finished s)) = mset (received s) \<and>
            mset (errorsOf (map snd (finished s))) = mset (uploadDumpOut s) \<and>
            ((\<exists>j e. (j, Some e) \<in> set (finished s)) \<longrightarrow> r \<noteq> None)"
    if r: "uploadPhase s = UploadReturned r" for r
  proof -
    have eq: "r = returnErr s" using ret r by (simp add: retInv_def)
    have all: "mset (map snd (finished s)) = mset (received s)"
      using p0 returned_nothing_inFlight[OF wf ret r] by simp
    have dump: "mset (errorsOf (map snd (finished s))) = mset (uploadDumpOut s)"
      using errorsOf_mset[OF all] p1 by simp
    have "\<not> (\<exists>k<length (workers s). errorInFlight s k)"
      using returned_no_flight[OF wf ret r] by blast
    then have "(\<exists>j e. (j, Some e) \<in> set (finished s)) \<longrightarrow> returnErr s \<noteq> None"
      using fail unfolding failInv_def by blast
    then show ?thesis using eq p2 all dump by simp
  qed
  have more_run: "Upload u fs (sched @ xs) = run xs s" for xs
    using Upload_Ok[OF infos] jobs s_run by (simp add: run_append)
  have p5: "\<exists>r. uploadPhase (Upload u fs (sched @ completion (length jobs))) = UploadReturned r"
    unfolding more_run by (rule completion_returns[OF wf ret genInv_pending[OF gen]])
  have p6: "\<exists>rest. jobs = enqueued s @ rest" using gen by (auto simp: genInv_def)
  have p7: "generator s = JobsChanClosed \<longrightarrow> enqueued (Upload u fs (sched @ later)) = enqueued s"
    unfolding more_run using closed_run by blast
  have p8: "ctxDone s \<and> pendingJobs (generator s) \<noteq> [] \<longrightarrow>
              generator (step ObserveDone s) = JobsChanClosed"
    by (cases "generator s") (auto split: list.splits)
  show ?thesis using p0 p1 p2 p3 p4 p5 p6 p7 p8 by blast
qed

text \<open>
  Claim C5. With \<open>ChunkSizeBytes = 0\<close>, \<open>UploadFiles\<close> panics before it builds the uploader,
  for every destination, every list of files and every schedule: no goroutine is started,
  no chunk job is created and no upload is worked on.
\<close>

theorem UploadFiles_zero_chunk_size:
  assumes "ChunkSizeBytes c = 0"
  shows "uploadPhase (UploadFiles c fs host uploadDir filenames sched)
           = UploadPanicked ''ChunkSizeBytes value cannot be zero'' \<and>
         workers (UploadFiles c fs host uploadDir filenames sched) = [] \<and>
         enqueued (UploadFiles c fs host uploadDir filenames sched) = [] \<and>
         finished (UploadFiles c fs host uploadDir filenames sched) = []"
  using assms by (simp add: UploadFiles_def notStarted_def)

text \<open>
  Claim C10. With a non-zero chunk size and an empty list of files, in every state \<open>s\<close>
  that the upload reaches no job was enqueued, no worker has or had a job (so no upload
  request is issued), no result was received and \<open>returnErr\<close> is nil; \<open>Upload\<close> is still
  running or has returned nil. From every such state the upload comes to its end: after
  \<open>jobsChan\<close> is closed and the goroutines have ended, all \<open>openConnections\<close> workers are
  done and \<open>Upload\<close> has returned nil.
\<close>

theorem UploadFiles_no_files:
  assumes "ChunkSizeBytes c \<noteq> 0"
    and s: "s = UploadFiles c fs host uploadDir [] sched"
    and fin: "fin = UploadFiles c fs host uploadDir [] (sched @ completion 0)"
  shows "enqueued s = [] \<and> finished s = [] \<and> received s = [] \<and>
         (\<forall>k<length (workers s). \<forall>j. fst (workers s ! k) \<noteq> Busy j) \<and>
         returnErr s = None \<and>
         (uploadPhase s = UploadRunning \<or> uploadPhase s = UploadReturned None) \<and>
         uploadPhase fin = UploadReturned None \<and>
         workers fin = replicate openConnections (InnerExited, OuterExited)"
proof -
  have run_eq: "UploadFiles c fs host uploadDir [] xs = run xs (started [])" for xs
    using assms(1)
    by (simp add: UploadFiles_def Upload_def getFilesInfos_def sendJobsSequence_def)
  have inv: "idleInv (run xs (started []))" "aggInv (run xs (started []))"
    "retInv (run xs (started []))" "wfInv (run xs (started []))" for xs
    by (intro idleInv_run started_idle aggInv_run retInv_run wfInv_run started_invs)+
  have s_run: "s = run sched (started [])" using s run_eq by simp
  have fin_run: "fin = run (completion 0) s" using fin run_eq s_run by (simp add: run_append)
  have i: "idleInv s" "aggInv s" "retInv s" "wfInv s" unfolding s_run by (rule inv)+
  have ifin: "idleInv fin" "aggInv fin" "retInv fin" "wfInv fin"
    unfolding fin_run s_run run_append[symmetric] by (rule inv)+
  have none: "returnErr s = None" using i(1,2) by (simp add: idleInv_def aggInv_def firstError_def)
  have nonef: "returnErr fin = None"
    using ifin(1,2) by (simp add: idleInv_def aggInv_def firstError_def)
  have busy: "\<forall>k<length (workers s). \<forall>j. fst (workers s ! k) \<noteq> Busy j"
    using i(1) by (auto simp: idleInv_def settled_def)
  have ph: "uploadPhase s = UploadRunning \<or> uploadPhase s = UploadReturned None"
    using i(3) none by (cases "uploadPhase s") (auto simp: retInv_def)
  have "length (pendingJobs (generator s)) \<le> 0" using i(1) by (simp add: idleInv_def)
  from completion_returns[OF i(4) i(3) this] obtain r where
    r: "uploadPhase fin = UploadReturned r" unfolding fin_run by blast
  then have rn: "r = None" using ifin(3) nonef by (simp add: retInv_def)
  have each: "workers fin ! k = (InnerExited, OuterExited)" if "k < length (workers fin)" for k
  proof -
    have "snd (workers fin ! k) = OuterExited" using ifin(3) r that by (simp add: retInv_def)
    moreover from this have "fst (workers fin ! k) = InnerExited"
      using ifin(4) that by (simp add: wfInv_def)
    ultimately show ?thesis by (simp add: prod_eq_iff)
  qed
  have "length (workers fin) = openConnections" using ifin(4) by (simp add: wfInv_def)
  then have w: "workers fin = replicate openConnections (InnerExited, OuterExited)"
    using each by (intro nth_equalityI) simp_all
  show ?thesis using i(1) none busy ph r rn w by (simp add: idleInv_def)
qed

lemma example_infos:
  "getFilesInfos (exampleUploader [''f.img''] 300) (oneFile exampleFile) =
     Ok [\<lparr>Name = ''f.img'', TotalChunks = 4\<rparr>]"
  by (simp add: getFilesInfos_def exampleUploader_def oneFile_def exampleFile_def os_Stat_Size_def
      add64_def sub64_def quo64_def int64_def)

lemma example_jobs:
  "sendJobsSequence 300 [\<lparr>Name = ''f.img'', TotalChunks = 4\<rparr>] =
     [chunkJob 1 4 300, chunkJob 2 4 300, chunkJob 3 4 300, chunkJob 4 4 300]"
  by (simp add: sendJobsSequence_def jobsOfFile_eq chunkJob_def upto_rec1)

lemma example_Upload:
  "Upload (exampleUploader [''f.img''] 300) (oneFile exampleFile) sched =
     run sched (started [chunkJob 1 4 300, chunkJob 2 4 300, chunkJob 3 4 300, chunkJob 4 4 300])"
  using Upload_Ok[OF example_infos, of sched] by (simp add: example_jobs exampleUploader_def)

text \<open>A file of 1000 bytes in four chunks of 300 bytes, the uploads of chunks 2 and 3 failing
  for good: both errors are reported, the error of chunk 2 is returned, and the four results
  of the retry loops are the four results received.\<close>

theorem Upload_first_error_wins_witness:
  "received (Upload (exampleUploader [''f.img''] 300) (oneFile exampleFile) scheduleChunk2Fails)
     = [None, Some chunk2Failed, Some chunk3Failed, None] \<and>
   uploadDumpOut (Upload (exampleUploader [''f.img''] 300) (oneFile exampleFile) scheduleChunk2Fails)
     = [chunk2Failed, chunk3Failed] \<and>
   returnErr (Upload (exampleUploader [''f.img''] 300) (oneFile exampleFile) scheduleChunk2Fails)
     = Some chunk2Failed \<and>
   ctxDone (Upload (exampleUploader [''f.img''] 300) (oneFile exampleFile) scheduleChunk2Fails) \<and>
   uploadPhase (Upload (exampleUploader [''f.img''] 300) (oneFile exampleFile)
                  (scheduleChunk2Fails @ completion 4)) = UploadReturned (Some chunk2Failed) \<and>
   map snd (finished (Upload (exampleUploader [''f.img''] 300) (oneFile exampleFile)
                        (scheduleChunk2Fails @ completion 4)))
     = [Some chunk2Failed, None, Some chunk3Failed, None] \<and>
   received (Upload (exampleUploader [''f.img''] 300) (oneFile exampleFile)
               (scheduleChunk2Fails @ completion 4))
     = [None, Some chunk2Failed, Some chunk3Failed, None]"
proof -
  have j: "[chunkJob 1 4 300, chunkJob 2 4 300, chunkJob 3 4 300, chunkJob 4 4 300] =
      sendJobsSequence (UploaderChunkSizeBytes (exampleUploader [''f.img''] 300))
        [\<lparr>Name = ''f.img'', TotalChunks = 4\<rparr>]"
    by (simp add: example_jobs exampleUploader_def)
  have l: "length [chunkJob 1 4 300, chunkJob 2 4 300, chunkJob 3 4 300, chunkJob 4 4 300] = 4"
    by simp
  have "\<exists>r. uploadPhase (Upload (exampleUploader [''f.img''] 300) (oneFile exampleFile)
                        (scheduleChunk2Fails @ completion 4)) = UploadReturned r"
    using Upload_first_error_wins[where u = "exampleUploader [''f.img''] 300"
      and fs = "oneFile exampleFile" and sched = scheduleChunk2Fails and later = "[]",
      OF example_infos j refl]
    unfolding l by blast
  then show ?thesis
    by (simp add: example_Upload scheduleChunk2Fails_def started_def notStarted_def
        openConnections_def worker_defs collectResult_def completion_def settleWorker_def
        upt_rec numeral_eq_Suc)
qed

text \<open>
  Claim C3 as stated fails. After the error of chunk 2 was received and the context
  cancelled, the generator is in the \<open>select\<close> that offers chunk 3, and worker 2 is waiting
  on \<open>jobsChan\<close>. Both cases of the \<open>select\<close> are ready, Go picks one of them at random,
  and when it picks \<open>jobsChan <- job\<close> chunk 3 is enqueued after the cancellation.
\<close>

theorem Upload_send_after_cancel_counterexample:
  "ctxDone (Upload (exampleUploader [''f.img''] 300) (oneFile exampleFile) scheduleUntilCancel) \<and>
   returnErr (Upload (exampleUploader [''f.img''] 300) (oneFile exampleFile) scheduleUntilCancel)
     = Some chunk2Failed \<and>
   enqueued (Upload (exampleUploader [''f.img''] 300) (oneFile exampleFile) scheduleUntilCancel)
     = [chunkJob 1 4 300, chunkJob 2 4 300] \<and>
   enqueued (Upload (exampleUploader [''f.img''] 300) (oneFile exampleFile)
               (scheduleUntilCancel @ [SendJob 2]))
     = [chunkJob 1 4 300, chunkJob 2 4 300, chunkJob 3 4 300]"
  by (simp add: example_Upload scheduleUntilCancel_def started_def notStarted_def
      openConnections_def worker_defs collectResult_def)

text \<open>The theorem for a zero chunk size and the 1000-byte file.\<close>

theorem UploadFiles_zero_chunk_size_witness:
  "uploadPhase (UploadFiles zeroChunkOptions (oneFile exampleFile) ''h'' ''d'' [''f.img'']
                  scheduleChunk2Fails)
     = UploadPanicked ''ChunkSizeBytes value cannot be zero'' \<and>
   enqueued (UploadFiles zeroChunkOptions (oneFile exampleFile) ''h'' ''d'' [''f.img'']
               scheduleChunk2Fails) = [] \<and>
   finished (UploadFiles zeroChunkOptions (oneFile exampleFile) ''h'' ''d'' [''f.img'']
               scheduleChunk2Fails) = []"
  using UploadFiles_zero_chunk_size[of zeroChunkOptions "oneFile exampleFile" "''h''" "''d''"
      "[''f.img'']" scheduleChunk2Fails]
  by (simp add: zeroChunkOptions_def)

text \<open>The theorem for an empty list of files, under a schedule made for four jobs (none of
  its steps is enabled) followed by the closing steps.\<close>

theorem UploadFiles_no_files_witness:
  "enqueued (UploadFiles (opts_retry 3) (oneFile exampleFile) ''h'' ''d'' [] scheduleChunk2Fails) = [] \<and>
   uploadPhase (UploadFiles (opts_retry 3) (oneFile exampleFile) ''h'' ''d'' [] scheduleChunk2Fails)
     = UploadRunning \<and>
   uploadPhase (UploadFiles (opts_retry 3) (oneFile exampleFile) ''h'' ''d'' []
                  (scheduleChunk2Fails @ completion 0)) = UploadReturned None \<and>
   workers (UploadFiles (opts_retry 3) (oneFile exampleFile) ''h'' ''d'' []
              (scheduleChunk2Fails @ completion 0))
     = replicate openConnections (InnerExited, OuterExited)"
  using UploadFiles_no_files[where c = "opts_retry 3" and fs = "oneFile exampleFile"
      and host = "''h''" and uploadDir = "''d''" and sched = scheduleChunk2Fails, OF _ refl refl]
  by (simp add: opts_retry_def UploadFiles_def Upload_def getFilesInfos_def sendJobsSequence_def
      scheduleChunk2Fails_def started_def notStarted_def openConnections_def worker_defs)

section \<open>Properties of the upload worker\<close>

lemmas backoff_defs = Start_def NewExponentialBackOff_def Reset_def NextBackOff_def
  GetElapsedTime_def getRandomValueFromInterval_def incrementCurrentInterval_def
  backoff_Stop_def truncateRat_def upload_def Let_def

lemmas attempt_defs = shortBackOffOpts_def failing_def succeeding_def Second_def
  Millisecond_def chunkJob_def chunk1Unavailable_def chunk2Unavailable_def

text \<open>
  Claim C4 at a worker with an initial interval of 1s, multiplier 2, no randomization and
  a maximal elapsed time of 3s, every upload call taking 100ms. The upload of chunk 2
  fails once and would succeed on its second call.
  \<^item> A worker that handles chunk 2 alone retries it after 1s and reports success.
  \<^item> A worker that has handled chunk 1 before, whose uploads failed until the backoff said
    \<open>Stop\<close>, calls the upload of chunk 2 once, at 1.2s, and reports its failure without any
    retry: \<open>b.Reset()\<close> runs only after a successful upload, so the elapsed time of chunk 2
    is still counted from the start of the worker and its budget is used up by chunk 1.
  The retry loop of chunk 2 is thus not bounded by a budget of its own; it depends on the
  jobs that the worker handled before.
\<close>

theorem Start_budget_shared_between_jobs:
  "sentOnCh (Start shortBackOffOpts 0 [(chunkJob 2 4 300, [failing, succeeding])])
     = [(chunkJob 2 4 300, None)] \<and>
   uploadCalls (Start shortBackOffOpts 0 [(chunkJob 2 4 300, [failing, succeeding])])
     = [(chunkJob 2 4 300, 0), (chunkJob 2 4 300, 1100 * Millisecond)] \<and>
   sentOnCh (Start shortBackOffOpts 0 [(chunkJob 1 4 300, [failing, failing]),
                                       (chunkJob 2 4 300, [failing, succeeding])])
     = [(chunkJob 1 4 300, Some chunk1Unavailable), (chunkJob 2 4 300, Some chunk2Unavailable)] \<and>
   uploadCalls (Start shortBackOffOpts 0 [(chunkJob 1 4 300, [failing, failing]),
                                          (chunkJob 2 4 300, [failing, succeeding])])
     = [(chunkJob 1 4 300, 0), (chunkJob 1 4 300, 1100 * Millisecond),
        (chunkJob 2 4 300, 1200 * Millisecond)] \<and>
   slept (Start shortBackOffOpts 0 [(chunkJob 1 4 300, [failing, failing]),
                                    (chunkJob 2 4 300, [failing, succeeding])])
     = [1 * Second]"
  by (simp add: backoff_defs attempt_defs filepath_Base_def)

section \<open>Properties of the waiter\<close>





lemma parseTargetLink_no_slash: "parseTargetLink ''foo'' = None"
  by (simp add: parseTargetLink_def)

text \<open>The identifier of a parsable target link is the last path segment of the link, and
  the link names an instance.\<close>

lemma parseTargetLink_Some:
  assumes "parseTargetLink link = Some ident"
  shows "ident \<noteq> [] \<and> CHR ''/'' \<notin> set ident \<and> (\<exists>pre. link = pre @ ''/instances/'' @ ident)"
proof -
  define r where "r = rev link"
  define parent where "parent = dropWhile (\<lambda>ch. ch \<noteq> CHR ''/'') r"
  have id: "ident = rev (takeWhile (\<lambda>ch. ch \<noteq> CHR ''/'') r)" and ne: "ident \<noteq> []"
    and pa: "take 11 parent = rev ''/instances/''"
    using assms by (auto simp: parseTargetLink_def Let_def r_def parent_def split: if_splits)
  have noslash: "CHR ''/'' \<notin> set ident"
    unfolding id using set_takeWhileD[of "CHR ''/''" "\<lambda>ch. ch \<noteq> CHR ''/''" r] by auto
  have "r = takeWhile (\<lambda>ch. ch \<noteq> CHR ''/'') r @ parent"
    by (simp add: parent_def)
  then have "link = rev parent @ ident"
    unfolding id r_def by (metis rev_append rev_rev_ident)
  moreover have "parent = take 11 parent @ drop 11 parent" by simp
  then have "rev parent = rev (drop 11 parent) @ ''/instances/''"
    using pa by (metis rev_append rev_rev_ident)
  ultimately have "link = rev (drop 11 parent) @ ''/instances/'' @ ident" by simp
  then show ?thesis using ne noslash by blast
qed




text \<open>
  Claim C9. For every operation that carries a server-declared error the waiter returns,
  on that answer and without fetching, an error with the server's message and the
  server's status code, or 503 when the server gives no status code.
\<close>

theorem waitFor_declared_error:
  assumes "opError op = Some e"
  shows "waitFor fetchResource (op # ops) =
           (Some (WaitFailed (DeclaredError
                    (case httpErrorStatusCode e of None \<Rightarrow> 503 | Some code \<Rightarrow> code)
                    (httpErrorMessage e))), [])"
  using assms by (simp add: surfaceError_def)

text \<open>The failed operation of the tests (404, "NOT FOUND"), and the same without a status
  code.\<close>

theorem waitFor_declared_error_witness:
  "waitFor fetchFoo [testOperation [] [] (Some notFound)]
     = (Some (WaitFailed (DeclaredError 404 ''NOT FOUND'')), []) \<and>
   waitFor fetchFoo [testOperation [] [] (Some (notFound\<lparr>httpErrorStatusCode := None\<rparr>))]
     = (Some (WaitFailed (DeclaredError 503 ''NOT FOUND'')), [])"
  using waitFor_declared_error[of "testOperation [] [] (Some notFound)" notFound fetchFoo "[]"]
    waitFor_declared_error[of "testOperation [] [] (Some (notFound\<lparr>httpErrorStatusCode := None\<rparr>))"
      "notFound\<lparr>httpErrorStatusCode := None\<rparr>" fetchFoo "[]"]
  by (simp add: testOperation_def notFound_def)

end
